theory Spec2Isabelle
  imports Main "HOL-Library.Word"
begin

unbundle bit_operations_syntax

section \<open>FrameData.h: a type-indexed frame arena\<close>

text \<open>
  The embedding follows \<^verbatim>\<open>include/FrameData.h\<close>. The cursors \<^verbatim>\<open>Head\<close>, \<^verbatim>\<open>ChunkHead\<close> and
  \<^verbatim>\<open>ChunkSize\<close> are \<^verbatim>\<open>uint32_t\<close> (32-bit words), \<^verbatim>\<open>size_t\<close> and \<^verbatim>\<open>uint64_t\<close> are 64-bit
  words, and the wrap-around of every conversion is kept. Addresses are natural numbers:
  pointer arithmetic inside one block never wraps. Undefined behaviour of the source
  (an index outside \<^verbatim>\<open>Chunks\<close>, a write outside every owned block, a cursor walking off its
  array) is a value of the type \<open>error\<close>, and so are the two exceptions of
  \<^verbatim>\<open>std::vector::resize\<close>, \<^verbatim>\<open>std::length_error\<close> and \<^verbatim>\<open>std::bad_alloc\<close>.
\<close>

subsection \<open>Errors, types and the process heap\<close>

datatype error = IndexOutOfBounds | InvalidWrite | IteratorOutOfRange | LengthError | BadAlloc

type_synonym byte = "8 word"

text \<open>
  What the templates read of a type \<open>T\<close>: the text of \<^verbatim>\<open>__FUNCSIG__\<close> inside
  \<^verbatim>\<open>ComputeHash<T>\<close>, \<^verbatim>\<open>sizeof(T)\<close>, \<^verbatim>\<open>alignof(T)\<close> and the copy constructor of \<open>T\<close>. A value
  of the type is its object representation, a list of \<^verbatim>\<open>sizeof(T)\<close> bytes; \<open>CopyCtor\<close> gives
  the representation of the object that \<^verbatim>\<open>T{InValue}\<close> constructs from the representation
  of \<^verbatim>\<open>InValue\<close>. \<^verbatim>\<open>Push\<close> asks of \<open>T\<close> only a trivial destructor, so the copy constructor
  may be the type's own; for a trivially copyable type it copies the bytes.
\<close>

record TypeInfo =
  TypeStr :: string
  SizeOf :: "64 word"
  AlignOf :: "64 word"
  CopyCtor :: "byte list \<Rightarrow> byte list"

text \<open>
  The C library's heap, outside the repository. \<open>Supply\<close> lists the addresses the
  allocator hands out next, in order (what it guarantees about them is a hypothesis of
  the theorems that need it); an empty supply is exhaustion, where \<^verbatim>\<open>aligned_alloc\<close>
  returns the null pointer \<open>0\<close>. \<open>Live\<close> holds the blocks currently allocated (base and
  size), \<open>Bytes\<close> the contents of memory. The last two fields belong to the C++
  library: \<open>MaxSize\<close> is \<^verbatim>\<open>max_size()\<close> of a vector of pointers (\<^verbatim>\<open>PTRDIFF_MAX / sizeof(void*)\<close>,
  that is \<open>2^60 - 1\<close>, in libstdc++ and libc++ with 64-bit pointers), and \<open>VecRoom\<close> is the
  number of pointers up to which \<^verbatim>\<open>operator new\<close> lets the buffer of \<^verbatim>\<open>Chunks\<close> grow in
  \<^verbatim>\<open>resize\<close>; a larger request throws \<^verbatim>\<open>std::bad_alloc\<close>. The growth by one element at a
  time, in \<^verbatim>\<open>push_back\<close> and in the registry, is taken to be served.
\<close>

record heap =
  Supply :: "nat list"
  Live :: "(nat \<times> nat) list"
  Bytes :: "nat \<Rightarrow> byte"
  MaxSize :: nat
  VecRoom :: nat

definition AlignedAlloc :: "heap \<Rightarrow> 64 word \<Rightarrow> 64 word \<Rightarrow> nat \<times> heap" where
  "AlignedAlloc h InSize InAlign =
     (case Supply h of
        [] \<Rightarrow> (0, h)
      | a # rest \<Rightarrow> (a, h\<lparr>Supply := rest, Live := (a, unat InSize) # Live h\<rparr>))"

definition free :: "heap \<Rightarrow> nat \<Rightarrow> heap" where
  "free h p = h\<lparr>Live := filter (\<lambda>(b, n). b \<noteq> p) (Live h)\<rparr>"

text \<open>
  Writing the bytes of an object at \<open>p\<close>, which placement new does with the object it
  constructs. A write that is not inside one live block is undefined behaviour.
\<close>

definition store :: "heap \<Rightarrow> nat \<Rightarrow> byte list \<Rightarrow> error + heap" where
  "store h p bs =
     (if list_ex (\<lambda>(b, n). b \<le> p \<and> p + length bs \<le> b + n) (Live h)
      then Inr (h\<lparr>Bytes := (\<lambda>a. if p \<le> a \<and> a < p + length bs then bs ! (a - p) else Bytes h a)\<rparr>)
      else Inl InvalidWrite)"

definition load :: "heap \<Rightarrow> nat \<Rightarrow> nat \<Rightarrow> byte list" where
  "load h p n = map (\<lambda>i. Bytes h (p + i)) [0..<n]"

subsection \<open>Details::Align and Details::ComputeHash\<close>

text \<open>\<^verbatim>\<open>Align<uint32_t>\<close>: the sum and the mask are computed in 64 bits, the result is cast back.\<close>

definition Align :: "32 word \<Rightarrow> 64 word \<Rightarrow> 32 word" where
  "Align Val Alignment = ucast (((ucast Val :: 64 word) + Alignment - 1) AND NOT (Alignment - 1))"

definition Prime :: "64 word" where
  "Prime = 0x100000001B3"

function ComputeHash_loop :: "string \<Rightarrow> nat \<Rightarrow> 64 word \<Rightarrow> 64 word" where
  "ComputeHash_loop Str Index Hash =
     (if Index < length Str
      then ComputeHash_loop Str (Index + 1) ((Hash XOR of_char (Str ! Index)) * Prime)
      else Hash)"
  by pat_completeness auto
termination
  by (relation "measure (\<lambda>(Str, Index, Hash). length Str - Index)") auto

definition ComputeHash :: "string \<Rightarrow> 64 word" where
  "ComputeHash Str = ComputeHash_loop Str 0 0xCBF29CE484222325"

definition TTypeIndex :: "TypeInfo \<Rightarrow> 64 word" where
  "TTypeIndex T = ComputeHash (TypeStr T)"

subsection \<open>FFrameData\<close>

record FFrameData =
  TypeMap :: "64 word \<Rightarrow> nat list option"
  Chunks :: "nat list"
  ChunkSize :: "32 word"
  Head :: "32 word"
  ChunkHead :: "32 word"

definition ChunkAlignment :: "32 word" where
  "ChunkAlignment = 64"

definition Construct :: "32 word \<Rightarrow> FFrameData" where
  "Construct InChunkSize =
     \<lparr>TypeMap = Map.empty, Chunks = [], ChunkSize = InChunkSize, Head = 0, ChunkHead = 0\<rparr>"

text \<open>
  The move constructor returns the new object and what is left of \<^verbatim>\<open>InOther\<close>: its map and
  its vector are moved from (empty), its three cursors are kept as they were.
\<close>

definition MoveConstruct :: "FFrameData \<Rightarrow> FFrameData \<times> FFrameData" where
  "MoveConstruct InOther =
     (\<lparr>TypeMap = TypeMap InOther, Chunks = Chunks InOther, ChunkSize = ChunkSize InOther,
       Head = Head InOther, ChunkHead = ChunkHead InOther\<rparr>,
      InOther\<lparr>TypeMap := Map.empty, Chunks := []\<rparr>)"

definition PushChunk :: "heap \<Rightarrow> FFrameData \<Rightarrow> heap \<times> FFrameData" where
  "PushChunk h s =
     (let (p, h') = AlignedAlloc h (ucast (ChunkSize s)) (ucast ChunkAlignment)
      in (h', s\<lparr>Chunks := Chunks s @ [p]\<rparr>))"

text \<open>
  \<^verbatim>\<open>Allocate\<close>. The test \<^verbatim>\<open>Offset + InSize > ChunkSize\<close> is taken in 64 bits, the new
  \<^verbatim>\<open>Head\<close> is cut to 32 bits, \<^verbatim>\<open>++ChunkHead\<close> wraps at 32 bits, and \<^verbatim>\<open>Chunks[ChunkHead]\<close>
  outside the vector is an error.
\<close>

definition Allocate :: "heap \<Rightarrow> FFrameData \<Rightarrow> 64 word \<Rightarrow> 64 word \<Rightarrow> error + nat \<times> heap \<times> FFrameData" where
  "Allocate h s InSize InAlign =
     (let (h1, s1) = (if length (Chunks s) = 0 then PushChunk h s else (h, s));
          Offset = Align (Head s1) InAlign;
          (Offset, h2, s2) =
            (if (ucast Offset :: 64 word) + InSize > ucast (ChunkSize s1)
             then
               (let s1a = s1\<lparr>Head := 0\<rparr>;
                    s1b = s1a\<lparr>ChunkHead := ChunkHead s1a + 1\<rparr>
                in if unat (ChunkHead s1b) \<ge> length (Chunks s1b)
                   then (let (h', s') = PushChunk h1 s1b in (0, h', s'))
                   else (0, h1, s1b))
             else (Offset, h1, s1));
          s3 = s2\<lparr>Head := ucast ((ucast Offset :: 64 word) + InSize)\<rparr>
      in if unat (ChunkHead s3) < length (Chunks s3)
         then Inr (Chunks s3 ! unat (ChunkHead s3) + unat Offset, h2, s3)
         else Inl IndexOutOfBounds)"

text \<open>
  \<^verbatim>\<open>Push\<close>: \<^verbatim>\<open>new (Ptr) T{ InValue }\<close> runs the copy constructor of \<open>T\<close> on the argument and
  leaves the object it constructs at \<open>Ptr\<close>; the address is then recorded under the key.
\<close>

definition Push :: "heap \<Rightarrow> FFrameData \<Rightarrow> TypeInfo \<Rightarrow> byte list \<Rightarrow> error + heap \<times> FFrameData" where
  "Push h s T InValue =
     (case Allocate h s (SizeOf T) (AlignOf T) of
        Inl e \<Rightarrow> Inl e
      | Inr (Ptr, h1, s1) \<Rightarrow>
          (case store h1 Ptr (CopyCtor T InValue) of
             Inl e \<Rightarrow> Inl e
           | Inr h2 \<Rightarrow>
               (let Index = TTypeIndex T
                in case TypeMap s1 Index of
                     Some Search \<Rightarrow> Inr (h2, s1\<lparr>TypeMap := (TypeMap s1)(Index \<mapsto> Search @ [Ptr])\<rparr>)
                   | None \<Rightarrow> Inr (h2, s1\<lparr>TypeMap := (TypeMap s1)(Index \<mapsto> [Ptr])\<rparr>))))"

subsection \<open>TIterator, TIteratorRange and Data\<close>

text \<open>
  A cursor \<^verbatim>\<open>void* const*\<close> is the array it points into and a position in it; the null
  cursor is position 0 of the empty array.
\<close>

datatype TIterator = TIterator (Offset: "nat list \<times> nat")

record TIteratorRange =
  Begin :: TIterator
  End :: TIterator

definition deref :: "heap \<Rightarrow> TypeInfo \<Rightarrow> TIterator \<Rightarrow> error + byte list" where
  "deref h T it =
     (case Offset it of
        (arr, i) \<Rightarrow> if i < length arr then Inr (load h (arr ! i) (unat (SizeOf T)))
                    else Inl IteratorOutOfRange)"

definition incr :: "TIterator \<Rightarrow> TIterator" where
  "incr it = (case Offset it of (arr, i) \<Rightarrow> TIterator (arr, i + 1))"

text \<open>
  \<^verbatim>\<open>Data\<close> is a member function like the others: it returns its view and the object it
  was called on. The view of an absent key is \<^verbatim>\<open>TIteratorRange<const T>()\<close>, whose two
  cursors are value-initialised, that is null.
\<close>

definition Data :: "FFrameData \<Rightarrow> TypeInfo \<Rightarrow> TIteratorRange \<times> FFrameData" where
  "Data s T =
     (case TypeMap s (TTypeIndex T) of
        Some Search \<Rightarrow>
          (\<lparr>Begin = TIterator (Search, 0), End = TIterator (Search, length Search)\<rparr>, s)
      | None \<Rightarrow> (\<lparr>Begin = TIterator ([], 0), End = TIterator ([], 0)\<rparr>, s))"

text \<open>The range-based for loop over a view: \<^verbatim>\<open>for (it = begin(); it != end(); ++it) *it\<close>.\<close>

function iterate :: "heap \<Rightarrow> TypeInfo \<Rightarrow> TIterator \<Rightarrow> TIterator \<Rightarrow> error + byte list list" where
  "iterate h T it e =
     (if it = e then Inr []
      else (case deref h T it of
              Inl err \<Rightarrow> Inl err
            | Inr v \<Rightarrow> (case iterate h T (incr it) e of
                          Inl err \<Rightarrow> Inl err
                        | Inr vs \<Rightarrow> Inr (v # vs))))"
  by pat_completeness auto
termination
  by (relation "measure (\<lambda>(h, T, it, e). length (fst (Offset it)) - snd (Offset it))")
     (auto simp: deref_def incr_def split: prod.splits if_splits)

text \<open>
  The length of a view is the distance of its cursors. \<open>Query\<close>, as the specification
  calls it, is \<^verbatim>\<open>Data\<close> followed by the traversal of the view it returns.
\<close>

definition view_length :: "TIteratorRange \<Rightarrow> nat" where
  "view_length r = snd (Offset (End r)) - snd (Offset (Begin r))"

definition Query :: "heap \<Rightarrow> FFrameData \<Rightarrow> TypeInfo \<Rightarrow> error + byte list list" where
  "Query h s T = (let r = fst (Data s T) in iterate h T (Begin r) (End r))"

subsection \<open>Clear\<close>

function Clear_free :: "heap \<Rightarrow> nat list \<Rightarrow> nat \<Rightarrow> heap" where
  "Clear_free h cs i = (if i < length cs then Clear_free (free h (cs ! i)) cs (i + 1) else h)"
  by pat_completeness auto
termination
  by (relation "measure (\<lambda>(h, cs, i). length cs - i)") auto

function Clear_alloc :: "heap \<Rightarrow> nat list \<Rightarrow> 32 word \<Rightarrow> nat \<Rightarrow> nat \<Rightarrow> heap \<times> nat list" where
  "Clear_alloc h cs CS i InSlack =
     (if i < InSlack
      then (let (p, h') = AlignedAlloc h (ucast CS) (ucast ChunkAlignment)
            in Clear_alloc h' (cs[i := p]) CS (i + 1) InSlack)
      else (h, cs))"
  by pat_completeness auto
termination
  by (relation "measure (\<lambda>(h, cs, CS, i, InSlack). InSlack - i)") auto

text \<open>
  \<^verbatim>\<open>Chunks.resize(n)\<close>. Shrinking keeps the first \<open>n\<close> pointers. Growing value-initialises
  the new pointers (null); it throws \<^verbatim>\<open>std::length_error\<close> when \<open>n\<close> is above \<^verbatim>\<open>max_size()\<close>
  and \<^verbatim>\<open>std::bad_alloc\<close> when the buffer cannot be obtained, and then leaves the vector
  as it was.
\<close>

definition resize :: "heap \<Rightarrow> nat list \<Rightarrow> nat \<Rightarrow> error + nat list" where
  "resize h cs n =
     (if n \<le> length cs then Inr (take n cs)
      else if MaxSize h < n then Inl LengthError
      else if VecRoom h < n then Inl BadAlloc
      else Inr (cs @ replicate (n - length cs) 0))"

text \<open>
  \<^verbatim>\<open>Clear(size_t InSlack)\<close>. The cursors and the registry are reset before the pool is
  touched, so an exception of \<^verbatim>\<open>resize\<close> leaves the object with cursors 0, an empty
  registry and its old pool: the result \<open>Inl\<close> carries the exception and that state.
\<close>

definition Clear ::
  "heap \<Rightarrow> FFrameData \<Rightarrow> 64 word \<Rightarrow> error \<times> heap \<times> FFrameData + heap \<times> FFrameData" where
  "Clear h s InSlack =
     (let s1 = s\<lparr>Head := 0, ChunkHead := 0, TypeMap := Map.empty\<rparr>
      in if unat InSlack < length (Chunks s1)
         then (let h1 = Clear_free h (Chunks s1) (unat InSlack)
               in case resize h1 (Chunks s1) (unat InSlack) of
                    Inl e \<Rightarrow> Inl (e, h1, s1)
                  | Inr resized \<Rightarrow> Inr (h1, s1\<lparr>Chunks := resized\<rparr>))
         else (let BaseCount = length (Chunks s1)
               in case resize h (Chunks s1) (unat InSlack) of
                    Inl e \<Rightarrow> Inl (e, h, s1)
                  | Inr resized \<Rightarrow>
                      (let (h', cs) = Clear_alloc h resized (ChunkSize s1) BaseCount (unat InSlack)
                       in Inr (h', s1\<lparr>Chunks := cs\<rparr>))))"

subsection \<open>The specification's own words\<close>

text \<open>
  FNV-1a as the specification states it: from the seed, each byte in order is XORed into
  the hash, which is then multiplied by the prime, in 64-bit arithmetic.
\<close>

definition FNV1a_64 :: "byte list \<Rightarrow> 64 word" where
  "FNV1a_64 bs = foldl (\<lambda>hash b. (hash XOR ucast b) * 0x100000001B3) 0xCBF29CE484222325 bs"

text \<open>Aligning an offset up: the next multiple of the alignment.\<close>

definition align_up :: "nat \<Rightarrow> nat \<Rightarrow> nat" where
  "align_up off a = ((off + a - 1) div a) * a"

text \<open>The alignments a type can have under the ceiling of 64: the powers of two up to 64.\<close>

definition valid_align :: "64 word \<Rightarrow> bool" where
  "valid_align a = (a \<in> {1, 2, 4, 8, 16, 32, 64})"

text \<open>
  The block arena of the specification, with unbounded cursors, and its allocation
  algorithm, sentence by sentence. A block that does not exist has no address: the
  result is \<open>None\<close>.
\<close>

record arena =
  pool :: "nat list"
  active :: nat
  offset :: nat
  block_size :: nat

definition arena_of :: "FFrameData \<Rightarrow> arena" where
  "arena_of s =
     \<lparr>pool = Chunks s, active = unat (ChunkHead s), offset = unat (Head s),
      block_size = unat (ChunkSize s)\<rparr>"

definition append_block :: "heap \<Rightarrow> arena \<Rightarrow> heap \<times> arena" where
  "append_block h A =
     (let (p, h') = AlignedAlloc h (of_nat (block_size A)) 64
      in (h', A\<lparr>pool := pool A @ [p]\<rparr>))"

definition Allocate_spec :: "heap \<Rightarrow> arena \<Rightarrow> nat \<Rightarrow> nat \<Rightarrow> (nat \<times> heap \<times> arena) option" where
  "Allocate_spec h A sz al =
     (let (h1, A1) = (if pool A = [] then append_block h A else (h, A));
          aligned_offset = align_up (offset A1) al
      in if aligned_offset + sz > block_size A1
         then (let A2 = A1\<lparr>offset := 0, active := active A1 + 1\<rparr>;
                   (h3, A3) = (if active A2 \<ge> length (pool A2) then append_block h1 A2 else (h1, A2))
               in if active A3 < length (pool A3)
                  then Some (pool A3 ! active A3, h3, A3\<lparr>offset := sz\<rparr>)
                  else None)
         else if active A1 < length (pool A1)
              then Some (pool A1 ! active A1 + aligned_offset, h1, A1\<lparr>offset := aligned_offset + sz\<rparr>)
              else None)"

definition allocate_result :: "error + nat \<times> heap \<times> FFrameData \<Rightarrow> (nat \<times> heap \<times> arena) option" where
  "allocate_result r = (case r of Inl e \<Rightarrow> None | Inr (p, h, s) \<Rightarrow> Some (p, h, arena_of s))"

subsection \<open>Auxiliary notions of the statements\<close>

text \<open>Every block of the pool, and every block the allocator will hand out, starts at a multiple of 64.\<close>

definition blocks_aligned :: "heap \<Rightarrow> FFrameData \<Rightarrow> bool" where
  "blocks_aligned h s = ((\<forall>c\<in>set (Chunks s). c mod 64 = 0) \<and> (\<forall>a\<in>set (Supply h). a mod 64 = 0))"

text \<open>
  Heaps, types and containers for the concrete instances. \<open>Int32\<close> and \<open>Block64\<close> are
  trivially copyable. \<open>Big\<close> is a trivially copyable type of \<open>0xFFFFFFC1\<close> bytes with
  alignment 1, such as \<^verbatim>\<open>struct Big { char bytes[0xFFFFFFC1]; }\<close>. \<open>wide_state\<close> is the
  container \<^verbatim>\<open>FFrameData(0xFFFFFFFF)\<close> after one allocation of \<open>0xFFFFFFC1\<close> bytes on the heap
  \<open>wide_heap0\<close>, which \<open>wide_heap\<close> is afterwards.
\<close>

definition demo_heap :: heap where
  "demo_heap =
     \<lparr>Supply = [4096, 8192, 12288, 16384], Live = [], Bytes = (\<lambda>a. 0),
      MaxSize = 1152921504606846975, VecRoom = 1024\<rparr>"

definition Int32 :: TypeInfo where
  "Int32 = \<lparr>TypeStr = ''int'', SizeOf = 4, AlignOf = 4, CopyCtor = (\<lambda>v. v)\<rparr>"

definition Block64 :: TypeInfo where
  "Block64 = \<lparr>TypeStr = ''Block64'', SizeOf = 64, AlignOf = 64, CopyCtor = (\<lambda>v. v)\<rparr>"

definition demo_heap1 :: heap where
  "demo_heap1 =
     \<lparr>Supply = [8192, 12288, 16384], Live = [(4096, 64)], Bytes = (\<lambda>a. 0),
      MaxSize = 1152921504606846975, VecRoom = 1024\<rparr>"

definition demo_state1 :: FFrameData where
  "demo_state1 = \<lparr>TypeMap = Map.empty, Chunks = [4096], ChunkSize = 64, Head = 60, ChunkHead = 0\<rparr>"

definition wide_heap0 :: heap where
  "wide_heap0 =
     \<lparr>Supply = [4294967296, 8589934592], Live = [], Bytes = (\<lambda>a. 0),
      MaxSize = 1152921504606846975, VecRoom = 1024\<rparr>"

definition wide_heap :: heap where
  "wide_heap =
     \<lparr>Supply = [8589934592], Live = [(4294967296, 4294967295)], Bytes = (\<lambda>a. 0),
      MaxSize = 1152921504606846975, VecRoom = 1024\<rparr>"

definition wide_state :: FFrameData where
  "wide_state =
     \<lparr>TypeMap = Map.empty, Chunks = [4294967296], ChunkSize = 0xFFFFFFFF, Head = 0xFFFFFFC1,
      ChunkHead = 0\<rparr>"

definition Big :: TypeInfo where
  "Big = \<lparr>TypeStr = ''Big'', SizeOf = 0xFFFFFFC1, AlignOf = 1, CopyCtor = (\<lambda>v. v)\<rparr>"

text \<open>
  \<open>Stamp\<close> has a trivial destructor and a copy constructor of its own, which adds one to
  every byte:
  \<^verbatim>\<open>struct Stamp { unsigned char b[4]; Stamp(unsigned char x) : b{x, 0, 0, 0} {}\<close>
  \<^verbatim>\<open>Stamp(const Stamp& o) { for (int i = 0; i < 4; ++i) b[i] = o.b[i] + 1; } };\<close>
  \<^verbatim>\<open>Supports<Stamp>()\<close> holds and \<^verbatim>\<open>alignof(Stamp)\<close> is 1, so \<^verbatim>\<open>Push<Stamp>\<close> compiles.
\<close>

definition Stamp :: TypeInfo where
  "Stamp = \<lparr>TypeStr = ''Stamp'', SizeOf = 4, AlignOf = 1, CopyCtor = map (\<lambda>b. b + 1)\<rparr>"

definition big_value :: "byte list" where
  "big_value = replicate 4294967233 1"

text \<open>A sequence of \<^verbatim>\<open>Push\<close> calls, each with its type and its value; it stops at the first error.\<close>

fun PushAll :: "heap \<Rightarrow> FFrameData \<Rightarrow> (TypeInfo \<times> byte list) list \<Rightarrow> error + heap \<times> FFrameData" where
  "PushAll h s [] = Inr (h, s)"
| "PushAll h s ((T, v) # ps) =
     (case Push h s T v of Inl e \<Rightarrow> Inl e | Inr (h', s') \<Rightarrow> PushAll h' s' ps)"

subsection \<open>The invariant of a frame\<close>

text \<open>The blocks of size \<open>n\<close> that start at the addresses of a list do not overlap.\<close>

fun disjoint_blocks :: "nat \<Rightarrow> nat list \<Rightarrow> bool" where
  "disjoint_blocks n [] = True"
| "disjoint_blocks n (b # bs) = ((\<forall>c\<in>set bs. b + n \<le> c \<or> c + n \<le> b) \<and> disjoint_blocks n bs)"

text \<open>
  The arena between two operations: the offset is inside the block, the active index
  inside the pool (both 0 while the pool is empty), the blocks of the pool and those the
  allocator will hand out do not overlap, every block of the pool is live with its full
  size, and no live or future block is at the null address.
\<close>

definition arena_ok :: "heap \<Rightarrow> arena \<Rightarrow> bool" where
  "arena_ok h A =
     (offset A \<le> block_size A \<and> block_size A < 2 ^ 32
      \<and> (if pool A = [] then offset A = 0 \<and> active A = 0 else active A < length (pool A))
      \<and> disjoint_blocks (block_size A) (pool A @ Supply h)
      \<and> (\<forall>c\<in>set (pool A). (c, block_size A) \<in> set (Live h))
      \<and> (\<forall>(b, m)\<in>set (Live h). 0 < b)
      \<and> (\<forall>x\<in>set (Supply h). 0 < x))"

text \<open>The addresses handed out so far: the blocks before the active one, and the active one up to the offset.\<close>

definition used :: "arena \<Rightarrow> nat \<Rightarrow> bool" where
  "used A x =
     (\<exists>i<length (pool A). i \<le> active A \<and> pool A ! i \<le> x
        \<and> x < pool A ! i + (if i = active A then offset A else block_size A))"

text \<open>The test \<open>store\<close> makes: the range lies inside one live block.\<close>

definition writable :: "heap \<Rightarrow> nat \<Rightarrow> nat \<Rightarrow> bool" where
  "writable h p n = list_ex (\<lambda>(b, m). b \<le> p \<and> p + n \<le> b + m) (Live h)"

text \<open>\<open>AlignedAlloc\<close>, split into the heap it leaves and the address it returns.\<close>

definition grab :: "heap \<Rightarrow> nat \<Rightarrow> heap" where
  "grab h n = (case Supply h of [] \<Rightarrow> h | x # rest \<Rightarrow> h\<lparr>Supply := rest, Live := (x, n) # Live h\<rparr>)"

definition next_block :: "heap \<Rightarrow> nat" where
  "next_block h = (case Supply h of [] \<Rightarrow> 0 | x # rest \<Rightarrow> x)"

text \<open>
  What the language and the contract of \<^verbatim>\<open>Push\<close> give for a type and a value of it: the
  alignment is a power of two up to 64 and divides the size, the size is at most
  \<open>ChunkSize\<close>, and the value and the object that the copy constructor makes of it have
  \<^verbatim>\<open>sizeof(T)\<close> bytes each.
\<close>

definition type_ok :: "FFrameData \<Rightarrow> TypeInfo \<Rightarrow> byte list \<Rightarrow> bool" where
  "type_ok s T v =
     (valid_align (AlignOf T) \<and> unat (SizeOf T) \<le> unat (ChunkSize s)
      \<and> unat (AlignOf T) dvd unat (SizeOf T) \<and> length v = unat (SizeOf T)
      \<and> length (CopyCtor T v) = unat (SizeOf T))"

text \<open>
  The registry that holds the objects \<open>ps\<close>: under every key, the recorded addresses are
  those of the objects constructed with that key, in order; each object lies in the used
  part of the arena and memory holds its bytes. \<open>constructed\<close> gives the objects that a
  sequence of pushes constructs.
\<close>

definition registry_holds :: "heap \<Rightarrow> FFrameData \<Rightarrow> (TypeInfo \<times> byte list) list \<Rightarrow> bool" where
  "registry_holds h s ps =
     (\<forall>k. list_all2
            (\<lambda>p (T, v). (\<forall>x. p \<le> x \<and> x < p + length v \<longrightarrow> used (arena_of s) x)
                          \<and> load h p (length v) = v)
            (case TypeMap s k of None \<Rightarrow> [] | Some l \<Rightarrow> l)
            (filter (\<lambda>(T, v). TTypeIndex T = k) ps))"

definition constructed :: "(TypeInfo \<times> byte list) list \<Rightarrow> (TypeInfo \<times> byte list) list" where
  "constructed ps = map (\<lambda>(T, v). (T, CopyCtor T v)) ps"

definition frame_inv :: "heap \<Rightarrow> FFrameData \<Rightarrow> (TypeInfo \<times> byte list) list \<Rightarrow> bool" where
  "frame_inv h s ps =
     (arena_ok h (arena_of s) \<and> length (Chunks s) + length (Supply h) < 2 ^ 32
      \<and> registry_holds h s ps)"

text \<open>
  A container right after \<open>Construct\<close> or \<open>Clear\<close>, and what the theorems ask of its pool
  and of the allocator: the blocks of the pool and the blocks still to be handed out do
  not overlap, the blocks of the pool are live with \<open>ChunkSize\<close> bytes each, the null
  address is no block, and fewer than \<open>2^32\<close> blocks exist in all.
\<close>

definition just_reset :: "FFrameData \<Rightarrow> bool" where
  "just_reset s = (TypeMap s = Map.empty \<and> Head s = 0 \<and> ChunkHead s = 0)"

definition pool_ok :: "heap \<Rightarrow> FFrameData \<Rightarrow> bool" where
  "pool_ok h s =
     (disjoint_blocks (unat (ChunkSize s)) (Chunks s @ Supply h)
      \<and> (\<forall>c\<in>set (Chunks s). (c, unat (ChunkSize s)) \<in> set (Live h))
      \<and> (\<forall>(b, m)\<in>set (Live h). 0 < b)
      \<and> (\<forall>x\<in>set (Supply h). 0 < x)
      \<and> length (Chunks s) + length (Supply h) < 2 ^ 32)"

text \<open>Four pushes of two types, for the concrete instance of the round trip.\<close>

definition demo_pushes :: "(TypeInfo \<times> byte list) list" where
  "demo_pushes =
     [(Int32, [10, 0, 0, 0]), (Block64, replicate 64 7), (Int32, [20, 0, 0, 0]),
      (Int32, [30, 0, 0, 0])]"

section \<open>Proofs\<close>

declare ComputeHash_loop.simps [simp del]
declare iterate.simps [simp del]
declare Clear_free.simps [simp del]
declare Clear_alloc.simps [simp del]

subsection \<open>The type fingerprint\<close>

lemma ucast_of_char: "(ucast (of_char c :: byte) :: 64 word) = of_char c"
proof -
  have lt: "(of_char c :: nat) < 256"
    by (cases c) simp
  have a: "(of_char c :: byte) = of_nat (of_char c)"
    by (simp add: of_nat_of_char)
  have b: "(of_char c :: 64 word) = of_nat (of_char c)"
    by (simp add: of_nat_of_char)
  show ?thesis
    by (subst a, subst b) (use lt in \<open>simp add: unsigned_of_nat take_bit_nat_eq_self\<close>)
qed

lemma ComputeHash_loop_foldl:
  "ComputeHash_loop Str Index Hash =
     foldl (\<lambda>hash b. (hash XOR ucast b) * 0x100000001B3) Hash
       (map of_char (drop Index Str) :: byte list)"
proof (induction Str Index Hash rule: ComputeHash_loop.induct)
  case (1 Str Index Hash)
  show ?case
  proof (cases "Index < length Str")
    case True
    then have d: "drop Index Str = Str ! Index # drop (Index + 1) Str"
      by (simp add: Cons_nth_drop_Suc)
    show ?thesis
      using True 1
      by (subst ComputeHash_loop.simps) (simp add: d ucast_of_char Prime_def del: drop_Suc_Cons)
  next
    case False
    then show ?thesis
      by (subst ComputeHash_loop.simps) simp
  qed
qed

text \<open>
  C8. The fingerprint of a type is the FNV-1a hash (seed \<open>0xCBF29CE484222325\<close>, prime
  \<open>0x100000001B3\<close>, 64-bit arithmetic) of the bytes of its compile-time name string, in
  order. It depends on nothing but that string, so \<^verbatim>\<open>Push<T>\<close> and \<^verbatim>\<open>Data<T>\<close>, which both
  key the registry by \<open>TTypeIndex T\<close>, use the same 64-bit key.
\<close>

theorem fingerprint_is_fnv1a:
  "ComputeHash Str = FNV1a_64 (map of_char Str)
   \<and> TTypeIndex T = FNV1a_64 (map of_char (TypeStr T))
   \<and> TTypeIndex \<lparr>TypeStr = Str, SizeOf = n, AlignOf = a, CopyCtor = c\<rparr> = FNV1a_64 (map of_char Str)"
  by (simp add: TTypeIndex_def ComputeHash_def FNV1a_64_def ComputeHash_loop_foldl)

lemma ComputeHash_test_vector: "ComputeHash ''a'' = 0xAF63DC4C8601EC8C"
  by (simp add: ComputeHash_def ComputeHash_loop.simps Prime_def)

subsection \<open>Align\<close>

lemma and_not_mask_w: "(x::'a::len word) AND NOT (mask k) = push_bit k (drop_bit k x)"
  by (rule bit_eqI) (auto simp: bit_simps)

lemma unat_and_not_mask: "unat ((x::'a::len word) AND NOT (mask k)) = (unat x div 2 ^ k) * 2 ^ k"
proof -
  have le: "(unat x div 2 ^ k) * 2 ^ k \<le> unat x" by simp
  have "unat x < 2 ^ LENGTH('a)" by simp
  with le have lt: "(unat x div 2 ^ k) * 2 ^ k < 2 ^ LENGTH('a)" by linarith
  have "unat (push_bit k (drop_bit k x)) = take_bit LENGTH('a) (push_bit k (drop_bit k (unat x)))"
    by (simp only: unsigned_push_bit_eq unat_drop_bit_eq)
  also have "\<dots> = (unat x div 2 ^ k) * 2 ^ k"
    using lt by (simp add: push_bit_eq_mult drop_bit_eq_div take_bit_nat_eq_self)
  finally show ?thesis
    by (simp only: and_not_mask_w)
qed

lemma unat_two_power: "k < 64 \<Longrightarrow> unat ((2::64 word) ^ k) = 2 ^ k"
proof -
  assume "k < 64"
  then have "(2::nat) ^ k < 2 ^ 64" by (intro power_strict_increasing) simp_all
  moreover have "(2::64 word) ^ k = of_nat (2 ^ k)" by simp
  ultimately show ?thesis
    by (simp only: unat_of_nat) simp
qed

lemma unat_ucast_32_64: "unat (ucast (w :: 32 word) :: 64 word) = unat w"
proof -
  have "unat w < 2 ^ 32" using unsigned_less [of w] by simp
  then have "unat w < 2 ^ 64" by simp
  then show ?thesis
    by (simp add: unsigned_ucast_eq take_bit_nat_eq_self)
qed

lemma unat_lt_2p32: "unat (w :: 32 word) < 4294967296"
  using unsigned_less [of w] by simp

lemma unat_Align_pow2:
  assumes "k \<le> 32"
  shows "unat (Align Val (2 ^ k)) = align_up (unat Val) (2 ^ k) mod 2 ^ 32"
proof -
  have v: "unat Val < 4294967296" by (rule unat_lt_2p32)
  have "(2::nat) ^ k \<le> 2 ^ 32" using assms by (intro power_increasing) simp_all
  then have p: "(2::nat) ^ k \<le> 4294967296" by simp
  have pw: "unat ((2::64 word) ^ k) = 2 ^ k" using assms by (simp add: unat_two_power)
  have s: "unat ((ucast Val :: 64 word) + 2 ^ k - 1) = unat Val + 2 ^ k - 1"
  proof -
    have a: "unat ((ucast Val :: 64 word) + 2 ^ k) = unat Val + 2 ^ k"
      using v p pw by (simp add: unat_word_ariths unat_ucast_32_64)
    have "Suc 0 \<le> 2 ^ k" by simp
    then have "Suc 0 \<le> unat Val + 2 ^ k" by (rule trans_le_add2)
    with a have "(ucast Val :: 64 word) + 2 ^ k \<ge> 1"
      by (simp add: word_le_nat_alt)
    then show ?thesis
      using a by (simp add: unat_sub)
  qed
  have "(2::64 word) ^ k - 1 = mask k" by (simp add: mask_eq_exp_minus_1)
  then have "unat (((ucast Val :: 64 word) + 2 ^ k - 1) AND NOT (2 ^ k - 1)) = align_up (unat Val) (2 ^ k)"
    by (simp add: unat_and_not_mask s align_up_def)
  then show ?thesis
    unfolding Align_def
    by (simp add: unsigned_ucast_eq take_bit_eq_mod)
qed

lemma valid_align_pow2: "valid_align a \<Longrightarrow> \<exists>k\<le>6. a = 2 ^ k"
proof -
  assume "valid_align a"
  then have "\<exists>k\<in>{0, 1, 2, 3, 4, 5, 6::nat}. a = 2 ^ k"
    by (auto simp: valid_align_def)
  then obtain k where "k \<in> {0, 1, 2, 3, 4, 5, 6::nat}" and a: "a = 2 ^ k" ..
  then have "k \<le> 6" by auto
  with a show ?thesis by blast
qed

lemma unat_Align:
  assumes "valid_align a"
  shows "unat (Align Val a) = align_up (unat Val) (unat a) mod 2 ^ 32"
proof -
  from assms obtain k where k: "k \<le> 6" "a = 2 ^ k" using valid_align_pow2 by blast
  then have "unat a = 2 ^ k" by (simp add: unat_two_power)
  with k show ?thesis by (simp add: unat_Align_pow2)
qed

lemma valid_align_unat: "valid_align a \<Longrightarrow> unat a \<in> {1, 2, 4, 8, 16, 32, 64}"
  by (auto simp: valid_align_def)

lemma align_up_ge: "0 < a \<Longrightarrow> off \<le> align_up off a"
proof -
  assume a: "0 < a"
  have "off + a - 1 < ((off + a - 1) div a) * a + a"
    using a by (metis add.commute dividend_less_div_times)
  then show ?thesis using a by (simp add: align_up_def)
qed

lemma align_up_lt: "0 < a \<Longrightarrow> align_up off a < off + a"
proof -
  assume a: "0 < a"
  have "((off + a - 1) div a) * a \<le> off + a - 1" by simp
  moreover have "off + a - 1 < off + a" using a by simp
  ultimately show ?thesis unfolding align_up_def by linarith
qed

lemma align_up_dvd: "a dvd align_up off a"
  by (simp add: align_up_def)

lemma align_up_id: "0 < a \<Longrightarrow> a dvd off \<Longrightarrow> align_up off a = off"
proof -
  assume a: "0 < a" and "a dvd off"
  then obtain q where q: "off = a * q" by (auto simp: dvd_def)
  have "(a * q + a - 1) div a = q"
  proof -
    have e: "a * q + a - 1 = q * a + (a - 1)" using a by (cases a) (simp_all add: algebra_simps)
    have "(q * a + (a - 1)) div a = q + (a - 1) div a"
      by (rule div_mult_self3) (use a in simp)
    then show ?thesis using a by (simp only: e) simp
  qed
  then show ?thesis by (simp add: align_up_def q)
qed


subsection \<open>Allocate\<close>

lemma fits_test:
  fixes off CS :: "32 word" and sz :: "64 word"
  assumes "unat sz \<le> unat CS"
  shows "((ucast CS :: 64 word) < ucast off + sz) = (unat CS < unat off + unat sz)"
proof -
  have "unat sz < 4294967296" using assms unat_lt_2p32 [of CS] by linarith
  then have "unat ((ucast off :: 64 word) + sz) = unat off + unat sz"
    using unat_lt_2p32 [of off] by (simp add: unat_word_ariths unat_ucast_32_64)
  then show ?thesis
    by (simp add: word_less_nat_alt unat_ucast_32_64)
qed

lemma new_head:
  fixes off CS :: "32 word" and sz :: "64 word"
  assumes "unat off + unat sz \<le> unat CS"
  shows "unat (ucast ((ucast off :: 64 word) + sz) :: 32 word) = unat off + unat sz"
proof -
  have lt: "unat off + unat sz < 4294967296" using assms unat_lt_2p32 [of CS] by linarith
  then have "unat ((ucast off :: 64 word) + sz) = unat off + unat sz"
    by (simp add: unat_word_ariths unat_ucast_32_64)
  then show ?thesis
    using lt by (simp add: unsigned_ucast_eq take_bit_nat_eq_self)
qed

lemma new_head0:
  fixes CS :: "32 word" and sz :: "64 word"
  assumes "unat sz \<le> unat CS"
  shows "unat (ucast sz :: 32 word) = unat sz"
  using new_head [of 0 sz CS] assms by simp

lemma unat_Align_nowrap:
  assumes "valid_align a" and "align_up (unat Val) (unat a) < 2 ^ 32"
  shows "unat (Align Val a) = align_up (unat Val) (unat a)"
  using assms(2) by (simp add: unat_Align [OF assms(1)])

lemma valid_align_pos: "valid_align a \<Longrightarrow> 0 < unat a"
  using valid_align_unat [of a] by auto

lemma valid_align_dvd: "valid_align a \<Longrightarrow> unat a dvd 4294967296"
  by (auto simp: valid_align_def)

lemma Align_dvd: "valid_align a \<Longrightarrow> unat a dvd unat (Align Val a)"
  by (simp add: unat_Align) (intro dvd_mod align_up_dvd valid_align_dvd)



lemma unat_incr:
  fixes w :: "32 word"
  assumes "unat w + 1 < 2 ^ 32"
  shows "unat (w + 1) = unat w + 1"
  using assms by (simp add: unat_word_ariths)

lemma PushChunk_arena:
  "PushChunk h s = (h', s') \<Longrightarrow> append_block h (arena_of s) = (h', arena_of s')"
  by (auto simp: PushChunk_def append_block_def arena_of_def ChunkAlignment_def Let_def
      split: prod.splits)

lemma arena_of_simps:
  "pool (arena_of s) = Chunks s" "active (arena_of s) = unat (ChunkHead s)"
  "offset (arena_of s) = unat (Head s)" "block_size (arena_of s) = unat (ChunkSize s)"
  by (simp_all add: arena_of_def)

lemma PushChunk_fields:
  "PushChunk h s = (h', s') \<Longrightarrow>
     Head s' = Head s \<and> ChunkHead s' = ChunkHead s \<and> ChunkSize s' = ChunkSize s
     \<and> TypeMap s' = TypeMap s \<and> length (Chunks s') = Suc (length (Chunks s))"
  by (auto simp: PushChunk_def Let_def split: prod.splits)

lemma Allocate_refines:
  assumes al: "valid_align InAlign"
    and sz: "unat InSize \<le> unat (ChunkSize s)"
    and hd: "align_up (unat (Head s)) (unat InAlign) < 2 ^ 32"
    and ch: "unat (ChunkHead s) + 1 < 2 ^ 32"
  shows "allocate_result (Allocate h s InSize InAlign) =
           Allocate_spec h (arena_of s) (unat InSize) (unat InAlign)"
proof -
  obtain h1 s1 where p1: "(if Chunks s = [] then PushChunk h s else (h, s)) = (h1, s1)"
    by (cases "if Chunks s = [] then PushChunk h s else (h, s)")
  then have a1: "(if Chunks s = [] then append_block h (arena_of s) else (h, arena_of s)) = (h1, arena_of s1)"
    by (auto simp: PushChunk_arena split: if_splits)
  have f1: "Head s1 = Head s" "ChunkHead s1 = ChunkHead s" "ChunkSize s1 = ChunkSize s"
    using p1 by (auto dest: PushChunk_fields split: if_splits)
  define Off where "Off = Align (Head s) InAlign"
  have off: "unat Off = align_up (unat (Head s)) (unat InAlign)"
    unfolding Off_def using al hd by (rule unat_Align_nowrap)
  have test: "((ucast (ChunkSize s) :: 64 word) < ucast Off + InSize)
                = (unat (ChunkSize s) < unat Off + unat InSize)"
    using sz by (rule fits_test)
  show ?thesis
  proof (cases "unat (ChunkSize s) < unat Off + unat InSize")
    case False
    then have nh: "unat (ucast ((ucast Off :: 64 word) + InSize) :: 32 word) = unat Off + unat InSize"
      by (intro new_head [of _ _ "ChunkSize s"]) simp
    show ?thesis
      using False off
      by (simp add: Allocate_def Allocate_spec_def allocate_result_def p1 a1 f1 test nh
          arena_of_simps Off_def [symmetric] Let_def)
  next
    case True
    define s1b where "s1b = s1\<lparr>Head := 0, ChunkHead := ChunkHead s + 1\<rparr>"
    have inc: "unat (ChunkHead s + 1) = Suc (unat (ChunkHead s))"
      using ch by (simp add: unat_incr)
    have ab: "(arena_of s1)\<lparr>offset := 0, active := Suc (unat (ChunkHead s))\<rparr> = arena_of s1b"
      by (simp add: arena_of_def s1b_def inc f1)
    have nh: "unat (ucast InSize :: 32 word) = unat InSize"
      using sz by (rule new_head0)
    have fin: "\<And>t. arena_of (t\<lparr>Head := ucast InSize\<rparr>) = (arena_of t)\<lparr>offset := unat InSize\<rparr>"
      by (simp add: arena_of_def nh)
    have code: "Allocate h s InSize InAlign =
      (case (if length (Chunks s1b) \<le> unat (ChunkHead s1b) then PushChunk h1 s1b else (h1, s1b)) of
         (h3, s3) \<Rightarrow> if unat (ChunkHead s3) < length (Chunks s3)
                     then Inr (Chunks s3 ! unat (ChunkHead s3), h3, s3\<lparr>Head := ucast InSize\<rparr>)
                     else Inl IndexOutOfBounds)"
      using True
      by (simp add: Allocate_def p1 f1 test Off_def [symmetric] Let_def s1b_def split: prod.splits)
    have spec: "Allocate_spec h (arena_of s) (unat InSize) (unat InAlign) =
      (case (if length (pool (arena_of s1b)) \<le> active (arena_of s1b)
             then append_block h1 (arena_of s1b) else (h1, arena_of s1b)) of
         (h3, A3) \<Rightarrow> if active A3 < length (pool A3)
                     then Some (pool A3 ! active A3, h3, A3\<lparr>offset := unat InSize\<rparr>)
                     else None)"
      using True off
      by (simp add: Allocate_spec_def a1 f1 arena_of_simps Let_def ab split: prod.splits)
    obtain h3 s3 where p3:
      "(if length (Chunks s1b) \<le> unat (ChunkHead s1b) then PushChunk h1 s1b else (h1, s1b)) = (h3, s3)"
      by (cases "if length (Chunks s1b) \<le> unat (ChunkHead s1b) then PushChunk h1 s1b else (h1, s1b)")
    then have a3: "(if length (pool (arena_of s1b)) \<le> active (arena_of s1b)
             then append_block h1 (arena_of s1b) else (h1, arena_of s1b)) = (h3, arena_of s3)"
      by (auto simp: arena_of_simps PushChunk_arena split: if_splits)
    show ?thesis
      by (simp only: code spec p3 a3) (simp add: allocate_result_def arena_of_simps fin)
  qed
qed


lemma PushChunk_aligned:
  "PushChunk h s = (h', s') \<Longrightarrow> blocks_aligned h s \<Longrightarrow> blocks_aligned h' s'"
  by (auto simp: PushChunk_def AlignedAlloc_def blocks_aligned_def Let_def split: list.splits)

lemma valid_align_dvd_64: "valid_align a \<Longrightarrow> unat a dvd 64"
  by (auto simp: valid_align_def)

lemma Allocate_aligned:
  assumes "Allocate h s InSize InAlign = Inr (p, h', s')"
    and al: "valid_align InAlign"
    and ba: "blocks_aligned h s"
  shows "p mod unat InAlign = 0"
proof -
  obtain h1 s1 where p1: "(if Chunks s = [] then PushChunk h s else (h, s)) = (h1, s1)"
    by (cases "if Chunks s = [] then PushChunk h s else (h, s)")
  then have b1: "blocks_aligned h1 s1"
    using ba by (auto dest: PushChunk_aligned split: if_splits)
  define s1b where "s1b = s1\<lparr>Head := 0, ChunkHead := ChunkHead s1 + 1\<rparr>"
  have b1b: "blocks_aligned h1 s1b" using b1 by (simp add: blocks_aligned_def s1b_def)
  obtain h3 s3 where p3:
    "(if length (Chunks s1b) \<le> unat (ChunkHead s1b) then PushChunk h1 s1b else (h1, s1b)) = (h3, s3)"
    by (cases "if length (Chunks s1b) \<le> unat (ChunkHead s1b) then PushChunk h1 s1b else (h1, s1b)")
  then have b3: "blocks_aligned h3 s3"
    using b1b by (auto dest: PushChunk_aligned split: if_splits)
  have d64: "\<And>t g i. blocks_aligned g t \<Longrightarrow> i < length (Chunks t) \<Longrightarrow> unat InAlign dvd Chunks t ! i"
  proof -
    fix t g i assume "blocks_aligned g t" and "i < length (Chunks t)"
    then have "64 dvd Chunks t ! i" by (auto simp: blocks_aligned_def mod_eq_0_iff_dvd)
    with valid_align_dvd_64 [OF al] show "unat InAlign dvd Chunks t ! i" by (rule dvd_trans)
  qed
  have "unat InAlign dvd p"
    using assms(1) p1 p3 d64 [OF b1] d64 [OF b3] Align_dvd [OF al, of "Head s1"]
    by (auto simp: Allocate_def Let_def s1b_def split: if_splits prod.splits)
  then show ?thesis by (simp add: mod_eq_0_iff_dvd)
qed

lemma Push_registry:
  "Push h s T v = Inr (h', s') \<Longrightarrow>
     \<exists>Ptr h1 s1. Allocate h s (SizeOf T) (AlignOf T) = Inr (Ptr, h1, s1) \<and> store h1 Ptr (CopyCtor T v) = Inr h'
       \<and> s' = s1\<lparr>TypeMap := (TypeMap s1)(TTypeIndex T \<mapsto>
                 (case TypeMap s1 (TTypeIndex T) of None \<Rightarrow> [] | Some l \<Rightarrow> l) @ [Ptr])\<rparr>"
  by (auto simp: Push_def Let_def split: sum.split_asm option.split_asm prod.split_asm)

lemma wide_state_reachable:
  "Allocate wide_heap0 (Construct 0xFFFFFFFF) 0xFFFFFFC1 1 = Inr (4294967296, wide_heap, wide_state)"
  by (simp add: Allocate_def PushChunk_def AlignedAlloc_def Align_def Construct_def
      wide_heap0_def wide_heap_def wide_state_def ChunkAlignment_def Let_def)

text \<open>
  C2. \<open>Allocate\<close> leaves the algorithm of the specification on a request inside the
  claim's bounds. \<^verbatim>\<open>FFrameData(0xFFFFFFFF)\<close>, after a first allocation of \<open>0xFFFFFFC1\<close> bytes
  with alignment 1, is \<open>wide_state\<close>: one block at \<open>4294967296\<close>, \<open>Head = 0xFFFFFFC1\<close>. A
  request of 64 bytes aligned to 64 (64 is at most \<open>ChunkSize\<close>) has the aligned offset
  \<open>2^32\<close>, which does not fit the block, so the algorithm appends a block and returns its
  base \<open>8589934592\<close>. \<open>Align\<close> casts the aligned offset to \<^verbatim>\<open>uint32_t\<close>, which is 0: the test
  \<^verbatim>\<open>Offset + InSize > ChunkSize\<close> is false, no block is appended, and the address returned
  is \<open>4294967296\<close>, where the first allocation lies.
\<close>

theorem Allocate_serves_wrapped_offset:
  "Allocate wide_heap0 (Construct 0xFFFFFFFF) 0xFFFFFFC1 1 = Inr (4294967296, wide_heap, wide_state)
   \<and> valid_align 64 \<and> unat (64 :: 64 word) \<le> unat (ChunkSize wide_state)
   \<and> align_up (unat (Head wide_state)) (unat (64 :: 64 word)) = 4294967296
   \<and> Align (Head wide_state) 64 = 0
   \<and> Allocate wide_heap wide_state 64 64 = Inr (4294967296, wide_heap, wide_state\<lparr>Head := 64\<rparr>)
   \<and> Allocate_spec wide_heap (arena_of wide_state) (unat (64 :: 64 word)) (unat (64 :: 64 word)) =
       Some (8589934592,
             wide_heap\<lparr>Supply := [], Live := [(8589934592, 4294967295), (4294967296, 4294967295)]\<rparr>,
             \<lparr>pool = [4294967296, 8589934592], active = 1, offset = 64, block_size = 4294967295\<rparr>)"
proof -
  have a: "Allocate wide_heap0 (Construct 0xFFFFFFFF) 0xFFFFFFC1 1 =
             Inr (4294967296, wide_heap, wide_state)"
    by (simp add: Allocate_def PushChunk_def AlignedAlloc_def Align_def Construct_def
        wide_heap0_def wide_heap_def wide_state_def ChunkAlignment_def Let_def)
  have b: "valid_align 64 \<and> unat (64 :: 64 word) \<le> unat (ChunkSize wide_state)"
    by (simp add: valid_align_def wide_state_def)
  have c: "align_up (unat (Head wide_state)) (unat (64 :: 64 word)) = 4294967296"
    by (simp add: align_up_def wide_state_def)
  have d: "Align (Head wide_state) 64 = 0"
    by (simp add: Align_def wide_state_def)
  have e: "Allocate wide_heap wide_state 64 64 =
             Inr (4294967296, wide_heap, wide_state\<lparr>Head := 64\<rparr>)"
    by (simp add: Allocate_def Align_def wide_state_def wide_heap_def Let_def)
  have f: "Allocate_spec wide_heap (arena_of wide_state) (unat (64 :: 64 word)) (unat (64 :: 64 word)) =
       Some (8589934592,
             wide_heap\<lparr>Supply := [], Live := [(8589934592, 4294967295), (4294967296, 4294967295)]\<rparr>,
             \<lparr>pool = [4294967296, 8589934592], active = 1, offset = 64, block_size = 4294967295\<rparr>)"
    by (simp add: Allocate_spec_def arena_of_def wide_state_def wide_heap_def align_up_def
        append_block_def AlignedAlloc_def Let_def)
  show ?thesis
    using a b c d e f by simp
qed

text \<open>
  C5. The address at which \<open>Push\<close> stores a value of a type \<open>T\<close> (the last address of the
  registry's sequence for \<open>T\<close>) is a multiple of \<open>alignof(T)\<close>, a power of two up to 64,
  given that every block starts at a multiple of 64.
\<close>

theorem pushed_address_aligned:
  assumes "Push h s T v = Inr (h', s')"
    and "valid_align (AlignOf T)"
    and "blocks_aligned h s"
  shows "\<exists>ptrs. TypeMap s' (TTypeIndex T) = Some ptrs \<and> ptrs \<noteq> [] \<and> last ptrs mod unat (AlignOf T) = 0"
proof -
  from Push_registry [OF assms(1)] obtain Ptr h1 s1 where
    a: "Allocate h s (SizeOf T) (AlignOf T) = Inr (Ptr, h1, s1)" and
    s': "s' = s1\<lparr>TypeMap := (TypeMap s1)(TTypeIndex T \<mapsto>
                 (case TypeMap s1 (TTypeIndex T) of None \<Rightarrow> [] | Some l \<Rightarrow> l) @ [Ptr])\<rparr>"
    by blast
  have "Ptr mod unat (AlignOf T) = 0"
    using a assms(2,3) by (rule Allocate_aligned)
  then show ?thesis by (simp add: s')
qed

text \<open>
  C9. When the aligned offset plus the size is exactly \<open>ChunkSize\<close>, the request is
  served in the active block (after the base block, if the pool was empty): no block
  is appended, \<open>ChunkHead\<close> stays, and \<open>Head\<close> becomes \<open>ChunkSize\<close>.
\<close>

theorem exact_fit:
  assumes fit: "unat (Align (Head s) InAlign) + unat InSize = unat (ChunkSize s)"
    and p1: "(if Chunks s = [] then PushChunk h s else (h, s)) = (h1, s1)"
    and ch: "unat (ChunkHead s) < length (Chunks s1)"
  shows "Allocate h s InSize InAlign =
           Inr (Chunks s1 ! unat (ChunkHead s) + unat (Align (Head s) InAlign), h1,
                s1\<lparr>Head := ChunkSize s\<rparr>)"
proof -
  have f1: "Head s1 = Head s" "ChunkHead s1 = ChunkHead s" "ChunkSize s1 = ChunkSize s"
    using p1 by (auto dest: PushChunk_fields split: if_splits)
  define Off where "Off = Align (Head s) InAlign"
  have sz: "unat InSize \<le> unat (ChunkSize s)" using fit by simp
  have test: "\<not> (ucast (ChunkSize s) :: 64 word) < ucast Off + InSize"
    using fit by (simp add: fits_test [OF sz] Off_def)
  have "unat (ucast ((ucast Off :: 64 word) + InSize) :: 32 word) = unat (ChunkSize s)"
    using fit by (simp add: new_head [of _ _ "ChunkSize s"] Off_def)
  then have nh: "(ucast ((ucast Off :: 64 word) + InSize) :: 32 word) = ChunkSize s"
    by (simp add: word_unat_eq_iff)
  show ?thesis
    using ch
    by (simp add: Allocate_def p1 f1 test nh Off_def [symmetric] Let_def)
qed

theorem pushed_address_aligned_witness:
  "valid_align (AlignOf Int32) \<and> blocks_aligned demo_heap (Construct 4096)
   \<and> (\<exists>h' s'. Push demo_heap (Construct 4096) Int32 [10, 0, 0, 0] = Inr (h', s')
        \<and> (\<exists>ptrs. TypeMap s' (TTypeIndex Int32) = Some ptrs \<and> ptrs \<noteq> []
              \<and> last ptrs mod unat (AlignOf Int32) = 0))"
proof -
  have a: "valid_align (AlignOf Int32)"
    by (simp add: valid_align_def Int32_def)
  have b: "blocks_aligned demo_heap (Construct 4096)"
    by (simp add: blocks_aligned_def demo_heap_def Construct_def)
  have "\<exists>h' s'. Push demo_heap (Construct 4096) Int32 [10, 0, 0, 0] = Inr (h', s')"
    by (simp add: Push_def Allocate_def PushChunk_def AlignedAlloc_def Align_def store_def
        Construct_def demo_heap_def Int32_def ChunkAlignment_def Let_def)
  then obtain h' s' where p: "Push demo_heap (Construct 4096) Int32 [10, 0, 0, 0] = Inr (h', s')"
    by blast
  note q = pushed_address_aligned [OF p a b]
  have r: "\<exists>h' s'. Push demo_heap (Construct 4096) Int32 [10, 0, 0, 0] = Inr (h', s')
        \<and> (\<exists>ptrs. TypeMap s' (TTypeIndex Int32) = Some ptrs \<and> ptrs \<noteq> []
              \<and> last ptrs mod unat (AlignOf Int32) = 0)"
    by (rule exI [of _ h'], rule exI [of _ s']) (rule conjI [OF p q])
  show ?thesis
    by (rule conjI [OF a conjI [OF b r]])
qed

theorem exact_fit_witness:
  "unat (Align (Head demo_state1) 4) + unat (4 :: 64 word) = unat (ChunkSize demo_state1)
   \<and> (if Chunks demo_state1 = [] then PushChunk demo_heap1 demo_state1 else (demo_heap1, demo_state1))
       = (demo_heap1, demo_state1)
   \<and> unat (ChunkHead demo_state1) < length (Chunks demo_state1)
   \<and> Allocate demo_heap1 demo_state1 4 4 = Inr (4156, demo_heap1, demo_state1\<lparr>Head := 64\<rparr>)"
proof -
  have a: "unat (Align (Head demo_state1) 4) + unat (4 :: 64 word) = unat (ChunkSize demo_state1)"
    by (simp add: demo_state1_def Align_def)
  have b: "(if Chunks demo_state1 = [] then PushChunk demo_heap1 demo_state1 else (demo_heap1, demo_state1))
       = (demo_heap1, demo_state1)"
    by (simp add: demo_state1_def)
  have c: "unat (ChunkHead demo_state1) < length (Chunks demo_state1)"
    by (simp add: demo_state1_def)
  have d: "Chunks demo_state1 ! unat (ChunkHead demo_state1) + unat (Align (Head demo_state1) 4) = 4156"
    by (simp add: demo_state1_def Align_def)
  have e: "ChunkSize demo_state1 = 64"
    by (simp add: demo_state1_def)
  show ?thesis
    using exact_fit [OF a b c] a b c d e by simp
qed

subsection \<open>Clear\<close>

lemma Clear_free_foldl: "Clear_free h cs i = foldl free h (drop i cs)"
proof (induction h cs i rule: Clear_free.induct)
  case (1 h cs i)
  show ?case
  proof (cases "i < length cs")
    case True
    then have d: "drop i cs = cs ! i # drop (i + 1) cs"
      by (simp add: Cons_nth_drop_Suc)
    show ?thesis
      using True 1 by (subst Clear_free.simps) (simp add: d del: drop_Suc_Cons)
  next
    case False
    then show ?thesis by (subst Clear_free.simps) simp
  qed
qed

lemma foldl_free:
  "Live (foldl free h xs) = filter (\<lambda>(b, n). b \<notin> set xs) (Live h)
   \<and> Supply (foldl free h xs) = Supply h \<and> Bytes (foldl free h xs) = Bytes h"
proof (induction xs arbitrary: h)
  case Nil
  show ?case by simp
next
  case (Cons x xs)
  have "filter (\<lambda>(b, n). b \<notin> set xs) (filter (\<lambda>(b, n). b \<noteq> x) (Live h))
          = filter (\<lambda>(b, n). b \<notin> set (x # xs)) (Live h)"
    by (induction "Live h") (auto simp: split_def intro: filter_cong)
  then show ?case
    using Cons [of "free h x"] by (simp add: free_def)
qed

lemma Clear_alloc_result:
  assumes "Clear_alloc h cs CS i n = (h', cs')" and "length cs = n" and "i \<le> n"
  shows "cs' = take i cs @ take (n - i) (Supply h) @ replicate (n - i - length (Supply h)) 0
         \<and> Supply h' = drop (n - i) (Supply h)
         \<and> Live h' = rev (map (\<lambda>a. (a, unat CS)) (take (n - i) (Supply h))) @ Live h
         \<and> Bytes h' = Bytes h"
  using assms
proof (induction h cs CS i n arbitrary: h' cs' rule: Clear_alloc.induct)
  case (1 h cs CS i InSlack)
  show ?case
  proof (cases "i < InSlack")
    case False
    then show ?thesis
      using "1.prems" by (subst (asm) Clear_alloc.simps) auto
  next
    case True
    obtain p h1 where al: "AlignedAlloc h (ucast CS) (ucast ChunkAlignment) = (p, h1)"
      by (cases "AlignedAlloc h (ucast CS) (ucast ChunkAlignment)")
    have rec: "Clear_alloc h1 (cs[i := p]) CS (i + 1) InSlack = (h', cs')"
      using "1.prems"(1) True al by (subst (asm) Clear_alloc.simps) simp
    have ih: "cs' = take (i + 1) (cs[i := p]) @ take (InSlack - (i + 1)) (Supply h1)
                   @ replicate (InSlack - (i + 1) - length (Supply h1)) 0
         \<and> Supply h' = drop (InSlack - (i + 1)) (Supply h1)
         \<and> Live h' = rev (map (\<lambda>a. (a, unat CS)) (take (InSlack - (i + 1)) (Supply h1))) @ Live h1
         \<and> Bytes h' = Bytes h1"
      using "1.IH" [OF True al [symmetric] refl rec] "1.prems"(2) True by simp
    have tk: "take (i + 1) (cs[i := p]) = take i cs @ [p]"
      using True "1.prems"(2) by (simp add: take_Suc_conv_app_nth)
    obtain m where m: "InSlack - i = Suc m" "InSlack - (i + 1) = m"
      using True by (cases "InSlack - i") auto
    show ?thesis
    proof (cases "Supply h")
      case Nil
      then have "p = 0" "h1 = h" using al by (auto simp: AlignedAlloc_def)
      then show ?thesis
        using ih tk Nil m by (simp add: replicate_app_Cons_same)
    next
      case (Cons a rest)
      then have "p = a" "h1 = h\<lparr>Supply := rest, Live := (a, unat CS) # Live h\<rparr>"
        using al by (auto simp: AlignedAlloc_def unat_ucast_32_64)
      then show ?thesis
        using ih tk Cons m by simp
    qed
  qed
qed

lemma Data_None: "TypeMap s (TTypeIndex T) = None \<Longrightarrow>
   fst (Data s T) = \<lparr>Begin = TIterator ([], 0), End = TIterator ([], 0)\<rparr>"
  by (simp add: Data_def)

lemma Query_None: "TypeMap s (TTypeIndex T) = None \<Longrightarrow> Query h s T = Inr []"
  by (simp add: Query_def Data_None iterate.simps)

lemma view_length_None: "TypeMap s (TTypeIndex T) = None \<Longrightarrow> view_length (fst (Data s T)) = 0"
  by (simp add: view_length_def Data_None)

lemma Clear_shrink:
  assumes "unat k < length (Chunks s)"
  shows "Clear h s k =
           Inr (foldl free h (drop (unat k) (Chunks s)),
                s\<lparr>Head := 0, ChunkHead := 0, TypeMap := Map.empty,
                  Chunks := take (unat k) (Chunks s)\<rparr>)"
  using assms by (simp add: Clear_def resize_def Clear_free_foldl Let_def)

lemma Clear_grow:
  assumes "length (Chunks s) \<le> unat k"
    and "unat k = length (Chunks s) \<or> (unat k \<le> MaxSize h \<and> unat k \<le> VecRoom h)"
  shows "Clear h s k =
           (case Clear_alloc h (Chunks s @ replicate (unat k - length (Chunks s)) 0) (ChunkSize s)
                   (length (Chunks s)) (unat k) of
              (h', cs) \<Rightarrow> Inr (h', s\<lparr>Head := 0, ChunkHead := 0, TypeMap := Map.empty, Chunks := cs\<rparr>))"
  using assms by (auto simp: Clear_def resize_def Let_def)

lemma Clear_throws:
  assumes "length (Chunks s) < unat k"
    and "MaxSize h < unat k \<or> VecRoom h < unat k"
  shows "Clear h s k =
           Inl (if MaxSize h < unat k then LengthError else BadAlloc, h,
                s\<lparr>Head := 0, ChunkHead := 0, TypeMap := Map.empty\<rparr>)"
  using assms by (auto simp: Clear_def resize_def Let_def)

lemma Clear_Inr:
  assumes "Clear h s k = Inr (h', s')"
  shows "unat k \<le> length (Chunks s) \<or> (unat k \<le> MaxSize h \<and> unat k \<le> VecRoom h)"
proof (rule ccontr)
  assume n: "\<not> ?thesis"
  then have "length (Chunks s) < unat k" and "MaxSize h < unat k \<or> VecRoom h < unat k"
    by auto
  from Clear_throws [OF this] assms show False by simp
qed

text \<open>What \<open>Clear\<close> leaves when \<^verbatim>\<open>resize\<close> does not throw.\<close>

lemma Clear_returns:
  assumes "unat k \<le> length (Chunks s) \<or> (unat k \<le> MaxSize h \<and> unat k \<le> VecRoom h)"
  shows "\<exists>h' s'. Clear h s k = Inr (h', s')
     \<and> Head s' = 0 \<and> ChunkHead s' = 0 \<and> TypeMap s' = Map.empty \<and> ChunkSize s' = ChunkSize s
     \<and> (\<forall>T. view_length (fst (Data s' T)) = 0 \<and> Query h' s' T = Inr [])
     \<and> length (Chunks s') = unat k
     \<and> (unat k \<le> length (Chunks s) \<longrightarrow>
          Chunks s' = take (unat k) (Chunks s) \<and> Supply h' = Supply h
          \<and> Live h' = filter (\<lambda>(b, n). b \<notin> set (drop (unat k) (Chunks s))) (Live h))
     \<and> (length (Chunks s) \<le> unat k \<longrightarrow>
          Chunks s' = Chunks s @ take (unat k - length (Chunks s)) (Supply h)
                        @ replicate (unat k - length (Chunks s) - length (Supply h)) 0
          \<and> Supply h' = drop (unat k - length (Chunks s)) (Supply h)
          \<and> Live h' = rev (map (\<lambda>a. (a, unat (ChunkSize s)))
                            (take (unat k - length (Chunks s)) (Supply h))) @ Live h)
     \<and> (k = 0 \<longrightarrow> Chunks s' = [])"
proof (cases "unat k < length (Chunks s)")
  case True
  define h' where "h' = foldl free h (drop (unat k) (Chunks s))"
  define s' where "s' = s\<lparr>Head := 0, ChunkHead := 0, TypeMap := Map.empty,
                          Chunks := take (unat k) (Chunks s)\<rparr>"
  have c: "Clear h s k = Inr (h', s')"
    using Clear_shrink [OF True] by (simp add: h'_def s'_def)
  have tm: "TypeMap s' = Map.empty" by (simp add: s'_def)
  have k0: "k = 0 \<Longrightarrow> unat k = 0" by simp
  have "Head s' = 0 \<and> ChunkHead s' = 0 \<and> TypeMap s' = Map.empty \<and> ChunkSize s' = ChunkSize s
     \<and> (\<forall>T. view_length (fst (Data s' T)) = 0 \<and> Query h' s' T = Inr [])
     \<and> length (Chunks s') = unat k
     \<and> (unat k \<le> length (Chunks s) \<longrightarrow>
          Chunks s' = take (unat k) (Chunks s) \<and> Supply h' = Supply h
          \<and> Live h' = filter (\<lambda>(b, n). b \<notin> set (drop (unat k) (Chunks s))) (Live h))
     \<and> (length (Chunks s) \<le> unat k \<longrightarrow>
          Chunks s' = Chunks s @ take (unat k - length (Chunks s)) (Supply h)
                        @ replicate (unat k - length (Chunks s) - length (Supply h)) 0
          \<and> Supply h' = drop (unat k - length (Chunks s)) (Supply h)
          \<and> Live h' = rev (map (\<lambda>a. (a, unat (ChunkSize s)))
                            (take (unat k - length (Chunks s)) (Supply h))) @ Live h)
     \<and> (k = 0 \<longrightarrow> Chunks s' = [])"
    using True foldl_free [of h "drop (unat k) (Chunks s)"]
    by (simp add: h'_def view_length_None Query_None tm) (simp add: s'_def)
  with c show ?thesis by blast
next
  case False
  define resized where "resized = Chunks s @ replicate (unat k - length (Chunks s)) 0"
  obtain h' cs where ca: "Clear_alloc h resized (ChunkSize s) (length (Chunks s)) (unat k) = (h', cs)"
    by (cases "Clear_alloc h resized (ChunkSize s) (length (Chunks s)) (unat k)")
  define s' where "s' = s\<lparr>Head := 0, ChunkHead := 0, TypeMap := Map.empty, Chunks := cs\<rparr>"
  have le: "length (Chunks s) \<le> unat k" using False by simp
  have room: "unat k = length (Chunks s) \<or> (unat k \<le> MaxSize h \<and> unat k \<le> VecRoom h)"
    using assms le by auto
  have c: "Clear h s k = Inr (h', s')"
    using Clear_grow [OF le room] ca by (simp add: resized_def s'_def)
  have len: "length resized = unat k" using False by (simp add: resized_def)
  note r = Clear_alloc_result [OF ca len le]
  have tk: "take (length (Chunks s)) resized = Chunks s" by (simp add: resized_def)
  have tm: "TypeMap s' = Map.empty" by (simp add: s'_def)
  have cs: "Chunks s' = cs" by (simp add: s'_def)
  have lcs: "length cs = unat k"
    using r le by (simp add: tk)
  have "Head s' = 0 \<and> ChunkHead s' = 0 \<and> TypeMap s' = Map.empty \<and> ChunkSize s' = ChunkSize s
     \<and> (\<forall>T. view_length (fst (Data s' T)) = 0 \<and> Query h' s' T = Inr [])
     \<and> length (Chunks s') = unat k
     \<and> (unat k \<le> length (Chunks s) \<longrightarrow>
          Chunks s' = take (unat k) (Chunks s) \<and> Supply h' = Supply h
          \<and> Live h' = filter (\<lambda>(b, n). b \<notin> set (drop (unat k) (Chunks s))) (Live h))
     \<and> (length (Chunks s) \<le> unat k \<longrightarrow>
          Chunks s' = Chunks s @ take (unat k - length (Chunks s)) (Supply h)
                        @ replicate (unat k - length (Chunks s) - length (Supply h)) 0
          \<and> Supply h' = drop (unat k - length (Chunks s)) (Supply h)
          \<and> Live h' = rev (map (\<lambda>a. (a, unat (ChunkSize s)))
                            (take (unat k - length (Chunks s)) (Supply h))) @ Live h)
     \<and> (k = 0 \<longrightarrow> Chunks s' = [])"
    using False r le lcs
    by (simp add: view_length_None Query_None tm cs tk) (auto simp: s'_def)
  with c show ?thesis by blast
qed

text \<open>
  C4 (as amended). For every \<open>k\<close> that is not above the size of the pool, or that is not
  above \<^verbatim>\<open>max_size()\<close> of the vector while the heap has room for \<open>k\<close> block pointers,
  \<open>Clear k\<close> returns; it sets \<open>Head\<close> and \<open>ChunkHead\<close> to 0 and empties the registry, so
  every view is empty afterwards, and it leaves exactly \<open>k\<close> blocks: with more than \<open>k\<close>
  blocks the tail is freed and the first \<open>k\<close> are kept; with fewer, the missing blocks are
  taken from the allocator at once (a null pointer where it is exhausted); \<open>k = 0\<close>
  leaves no block. For every other \<open>k\<close>, \<open>Clear k\<close> ends in the exception of \<^verbatim>\<open>resize\<close>, with
  \<open>Head\<close> and \<open>ChunkHead\<close> 0, the registry empty, and the pool and the heap as they were.
\<close>

theorem Clear_resets:
  "(unat k \<le> length (Chunks s) \<or> (unat k \<le> MaxSize h \<and> unat k \<le> VecRoom h) \<longrightarrow>
     (\<exists>h' s'. Clear h s k = Inr (h', s')
       \<and> Head s' = 0 \<and> ChunkHead s' = 0 \<and> TypeMap s' = Map.empty \<and> ChunkSize s' = ChunkSize s
       \<and> (\<forall>T. view_length (fst (Data s' T)) = 0 \<and> Query h' s' T = Inr [])
       \<and> length (Chunks s') = unat k
       \<and> (unat k \<le> length (Chunks s) \<longrightarrow>
            Chunks s' = take (unat k) (Chunks s) \<and> Supply h' = Supply h
            \<and> Live h' = filter (\<lambda>(b, n). b \<notin> set (drop (unat k) (Chunks s))) (Live h))
       \<and> (length (Chunks s) \<le> unat k \<longrightarrow>
            Chunks s' = Chunks s @ take (unat k - length (Chunks s)) (Supply h)
                          @ replicate (unat k - length (Chunks s) - length (Supply h)) 0
            \<and> Supply h' = drop (unat k - length (Chunks s)) (Supply h)
            \<and> Live h' = rev (map (\<lambda>a. (a, unat (ChunkSize s)))
                              (take (unat k - length (Chunks s)) (Supply h))) @ Live h)
       \<and> (k = 0 \<longrightarrow> Chunks s' = [])))
   \<and> (\<not> (unat k \<le> length (Chunks s) \<or> (unat k \<le> MaxSize h \<and> unat k \<le> VecRoom h)) \<longrightarrow>
        Clear h s k =
          Inl (if MaxSize h < unat k then LengthError else BadAlloc, h,
               s\<lparr>Head := 0, ChunkHead := 0, TypeMap := Map.empty\<rparr>))"
proof (intro conjI impI)
  assume "unat k \<le> length (Chunks s) \<or> (unat k \<le> MaxSize h \<and> unat k \<le> VecRoom h)"
  then show "\<exists>h' s'. Clear h s k = Inr (h', s')
       \<and> Head s' = 0 \<and> ChunkHead s' = 0 \<and> TypeMap s' = Map.empty \<and> ChunkSize s' = ChunkSize s
       \<and> (\<forall>T. view_length (fst (Data s' T)) = 0 \<and> Query h' s' T = Inr [])
       \<and> length (Chunks s') = unat k
       \<and> (unat k \<le> length (Chunks s) \<longrightarrow>
            Chunks s' = take (unat k) (Chunks s) \<and> Supply h' = Supply h
            \<and> Live h' = filter (\<lambda>(b, n). b \<notin> set (drop (unat k) (Chunks s))) (Live h))
       \<and> (length (Chunks s) \<le> unat k \<longrightarrow>
            Chunks s' = Chunks s @ take (unat k - length (Chunks s)) (Supply h)
                          @ replicate (unat k - length (Chunks s) - length (Supply h)) 0
            \<and> Supply h' = drop (unat k - length (Chunks s)) (Supply h)
            \<and> Live h' = rev (map (\<lambda>a. (a, unat (ChunkSize s)))
                              (take (unat k - length (Chunks s)) (Supply h))) @ Live h)
       \<and> (k = 0 \<longrightarrow> Chunks s' = [])"
    by (rule Clear_returns)
next
  assume "\<not> (unat k \<le> length (Chunks s) \<or> (unat k \<le> MaxSize h \<and> unat k \<le> VecRoom h))"
  then have "length (Chunks s) < unat k" and "MaxSize h < unat k \<or> VecRoom h < unat k"
    by auto
  then show "Clear h s k =
          Inl (if MaxSize h < unat k then LengthError else BadAlloc, h,
               s\<lparr>Head := 0, ChunkHead := 0, TypeMap := Map.empty\<rparr>)"
    by (rule Clear_throws)
qed

theorem Clear_resets_witness:
  "(unat (3 :: 64 word) \<le> length (Chunks (demo_state1\<lparr>TypeMap := [TTypeIndex Int32 \<mapsto> [4096]]\<rparr>))
     \<or> (unat (3 :: 64 word) \<le> MaxSize demo_heap1 \<and> unat (3 :: 64 word) \<le> VecRoom demo_heap1))
   \<and> Clear demo_heap1 (demo_state1\<lparr>TypeMap := [TTypeIndex Int32 \<mapsto> [4096]]\<rparr>) 3 =
     Inr (demo_heap1\<lparr>Supply := [16384], Live := [(12288, 64), (8192, 64), (4096, 64)]\<rparr>,
          demo_state1\<lparr>Head := 0, TypeMap := Map.empty, Chunks := [4096, 8192, 12288]\<rparr>)
   \<and> Query (demo_heap1\<lparr>Supply := [16384], Live := [(12288, 64), (8192, 64), (4096, 64)]\<rparr>)
        (demo_state1\<lparr>Head := 0, TypeMap := Map.empty, Chunks := [4096, 8192, 12288]\<rparr>) Int32 = Inr []
   \<and> length (Chunks (demo_state1\<lparr>Head := 0, TypeMap := Map.empty, Chunks := [4096, 8192, 12288]\<rparr>)) =
       unat (3 :: 64 word)
   \<and> length (Chunks demo_state1) < unat (4096 :: 64 word) \<and> VecRoom demo_heap1 < unat (4096 :: 64 word)
   \<and> Clear demo_heap1 demo_state1 4096 =
       Inl (BadAlloc, demo_heap1, demo_state1\<lparr>Head := 0, ChunkHead := 0, TypeMap := Map.empty\<rparr>)"
proof -
  have a: "unat (3 :: 64 word) \<le> length (Chunks (demo_state1\<lparr>TypeMap := [TTypeIndex Int32 \<mapsto> [4096]]\<rparr>))
     \<or> (unat (3 :: 64 word) \<le> MaxSize demo_heap1 \<and> unat (3 :: 64 word) \<le> VecRoom demo_heap1)"
    by (simp add: demo_heap1_def)
  have r: "resize demo_heap1 [4096] 3 = Inr [4096, 0, 0]"
    by (simp add: resize_def demo_heap1_def numeral_3_eq_3)
  have ca: "Clear_alloc demo_heap1 [4096, 0, 0] 64 (Suc 0) 3 =
      (demo_heap1\<lparr>Supply := [16384], Live := [(12288, 64), (8192, 64), (4096, 64)]\<rparr>,
       [4096, 8192, 12288])"
    by (simp add: Clear_alloc.simps AlignedAlloc_def demo_heap1_def ChunkAlignment_def Let_def
        numeral_3_eq_3)
  have s: "Chunks demo_state1 = [4096]" "ChunkSize demo_state1 = 64"
    by (simp_all add: demo_state1_def)
  have p: "Clear demo_heap1 (demo_state1\<lparr>TypeMap := [TTypeIndex Int32 \<mapsto> [4096]]\<rparr>) 3 =
     Inr (demo_heap1\<lparr>Supply := [16384], Live := [(12288, 64), (8192, 64), (4096, 64)]\<rparr>,
          demo_state1\<lparr>Head := 0, TypeMap := Map.empty, Chunks := [4096, 8192, 12288]\<rparr>)"
    unfolding Clear_def Let_def by (simp add: s r ca) (simp add: demo_state1_def)
  have b: "length (Chunks demo_state1) < unat (4096 :: 64 word)
           \<and> VecRoom demo_heap1 < unat (4096 :: 64 word)"
    by (simp add: s demo_heap1_def)
  have c: "\<not> MaxSize demo_heap1 < unat (4096 :: 64 word)"
    by (simp add: demo_heap1_def)
  have first: "Query (demo_heap1\<lparr>Supply := [16384], Live := [(12288, 64), (8192, 64), (4096, 64)]\<rparr>)
        (demo_state1\<lparr>Head := 0, TypeMap := Map.empty, Chunks := [4096, 8192, 12288]\<rparr>) Int32 = Inr []
     \<and> length (Chunks (demo_state1\<lparr>Head := 0, TypeMap := Map.empty, Chunks := [4096, 8192, 12288]\<rparr>)) =
       unat (3 :: 64 word)"
  proof -
    from Clear_resets [of 3 "demo_state1\<lparr>TypeMap := [TTypeIndex Int32 \<mapsto> [4096]]\<rparr>" demo_heap1] a
    obtain h' s' where
      c: "Clear demo_heap1 (demo_state1\<lparr>TypeMap := [TTypeIndex Int32 \<mapsto> [4096]]\<rparr>) 3 = Inr (h', s')"
      and q: "\<forall>T. view_length (fst (Data s' T)) = 0 \<and> Query h' s' T = Inr []"
      and n: "length (Chunks s') = unat (3 :: 64 word)"
      by blast
    from c p have
      "h' = demo_heap1\<lparr>Supply := [16384], Live := [(12288, 64), (8192, 64), (4096, 64)]\<rparr>"
      "s' = demo_state1\<lparr>Head := 0, TypeMap := Map.empty, Chunks := [4096, 8192, 12288]\<rparr>"
      by simp_all
    with q n show ?thesis by blast
  qed
  have second: "Clear demo_heap1 demo_state1 4096 =
       Inl (BadAlloc, demo_heap1, demo_state1\<lparr>Head := 0, ChunkHead := 0, TypeMap := Map.empty\<rparr>)"
    using Clear_resets [of 4096 demo_state1 demo_heap1] b c by simp
  from a p first b second show ?thesis
    by (intro conjI) simp_all
qed

text \<open>
  The claim as stated, for every \<open>k\<close>, fails where \<^verbatim>\<open>Chunks.resize(k)\<close> throws. On a
  container with one block, \<open>Clear (2^61)\<close> raises \<^verbatim>\<open>std::length_error\<close>, and on a heap with
  room for 1024 block pointers \<open>Clear 2048\<close> raises \<^verbatim>\<open>std::bad_alloc\<close>: the cursors and the
  registry are reset, and the pool keeps its one block where the claim has \<open>k\<close> blocks.
\<close>

theorem Clear_resets_counterexample:
  "Clear demo_heap1 (demo_state1\<lparr>TypeMap := [TTypeIndex Int32 \<mapsto> [4096]]\<rparr>) (2 ^ 61) =
     Inl (LengthError, demo_heap1, demo_state1\<lparr>Head := 0, TypeMap := Map.empty\<rparr>)
   \<and> unat ((2 :: 64 word) ^ 61) = 2305843009213693952
   \<and> Clear demo_heap1 (demo_state1\<lparr>TypeMap := [TTypeIndex Int32 \<mapsto> [4096]]\<rparr>) 2048 =
     Inl (BadAlloc, demo_heap1, demo_state1\<lparr>Head := 0, TypeMap := Map.empty\<rparr>)
   \<and> length (Chunks (demo_state1\<lparr>Head := 0, TypeMap := Map.empty\<rparr>)) = 1"
proof -
  have s: "Chunks demo_state1 = [4096]"
    by (simp add: demo_state1_def)
  have a: "Clear demo_heap1 (demo_state1\<lparr>TypeMap := [TTypeIndex Int32 \<mapsto> [4096]]\<rparr>) (2 ^ 61) =
     Inl (LengthError, demo_heap1, demo_state1\<lparr>Head := 0, TypeMap := Map.empty\<rparr>)"
    using Clear_throws [of "demo_state1\<lparr>TypeMap := [TTypeIndex Int32 \<mapsto> [4096]]\<rparr>" "2 ^ 61"
        demo_heap1]
    by (simp add: s demo_heap1_def) (simp add: demo_state1_def)
  have b: "unat ((2 :: 64 word) ^ 61) = 2305843009213693952"
    by simp
  have c: "Clear demo_heap1 (demo_state1\<lparr>TypeMap := [TTypeIndex Int32 \<mapsto> [4096]]\<rparr>) 2048 =
     Inl (BadAlloc, demo_heap1, demo_state1\<lparr>Head := 0, TypeMap := Map.empty\<rparr>)"
    using Clear_throws [of "demo_state1\<lparr>TypeMap := [TTypeIndex Int32 \<mapsto> [4096]]\<rparr>" 2048
        demo_heap1]
    by (simp add: s demo_heap1_def) (simp add: demo_state1_def)
  have d: "length (Chunks (demo_state1\<lparr>Head := 0, TypeMap := Map.empty\<rparr>)) = 1"
    by (simp add: demo_state1_def)
  show ?thesis
    using a b c d by simp
qed

subsection \<open>Data\<close>

text \<open>
  C10. \<open>Data\<close> returns the container it was called on unchanged (registry, pool and
  cursors): no entry is created for a type without values, and a second query gives
  the same view and the same values as the first.
\<close>

theorem Data_is_pure:
  "snd (Data s T) = s \<and> TypeMap (snd (Data s T)) = TypeMap s
   \<and> fst (Data (snd (Data s T)) T) = fst (Data s T)
   \<and> Query h (snd (Data s T)) T = Query h s T"
  by (simp add: Data_def split: option.split)

lemma Allocate_frame:
  "Allocate h s InSize InAlign = Inr (p, h', s') \<Longrightarrow>
     TypeMap s' = TypeMap s \<and> ChunkSize s' = ChunkSize s"
  by (auto simp: Allocate_def PushChunk_def Let_def split: if_splits prod.splits)

lemma Push_other_key:
  assumes "Push h s A v = Inr (h', s')" and "TTypeIndex A \<noteq> k"
  shows "TypeMap s' k = TypeMap s k"
proof -
  from Push_registry [OF assms(1)] obtain Ptr h1 s1 where
    a: "Allocate h s (SizeOf A) (AlignOf A) = Inr (Ptr, h1, s1)" and
    s': "s' = s1\<lparr>TypeMap := (TypeMap s1)(TTypeIndex A \<mapsto>
                 (case TypeMap s1 (TTypeIndex A) of None \<Rightarrow> [] | Some l \<Rightarrow> l) @ [Ptr])\<rparr>"
    by blast
  show ?thesis
    using Allocate_frame [OF a] assms(2) by (simp add: s')
qed

lemma PushAll_other_key:
  "PushAll h s ps = Inr (h', s') \<Longrightarrow> \<forall>(A, v)\<in>set ps. TTypeIndex A \<noteq> k \<Longrightarrow>
     TypeMap s' k = TypeMap s k"
proof (induction ps arbitrary: h s)
  case Nil
  then show ?case by simp
next
  case (Cons x ps)
  obtain A v where x: "x = (A, v)" by (cases x)
  from Cons.prems(1) obtain h1 s1 where
    p: "Push h s A v = Inr (h1, s1)" and r: "PushAll h1 s1 ps = Inr (h', s')"
    by (auto simp: x split: sum.splits)
  have "TypeMap s1 k = TypeMap s k"
    using p Cons.prems(2) by (intro Push_other_key) (auto simp: x)
  moreover have "TypeMap s' k = TypeMap s1 k"
    using r Cons.prems(2) by (intro Cons.IH) auto
  ultimately show ?case by simp
qed

lemma Construct_just_reset: "just_reset (Construct n) \<and> Chunks (Construct n) = []"
  by (simp add: just_reset_def Construct_def)

lemma Clear_just_reset: "Clear h s k = Inr (h', s') \<Longrightarrow> just_reset s'"
  by (auto simp: just_reset_def Clear_def Let_def split: if_splits prod.splits sum.splits)

text \<open>
  C6. Start from a container whose registry is empty, as \<open>Construct\<close> and \<open>Clear\<close> leave
  it, and push values of types whose fingerprints are not the fingerprint of \<open>T\<close>. Then
  the view that \<open>Data\<close> returns for \<open>T\<close> has its begin cursor equal to its end cursor and
  length 0, and iterating it yields nothing. \<open>Data\<close> has no error result at all.
\<close>

theorem query_of_unpushed_type_is_empty:
  assumes "TypeMap s0 = Map.empty"
    and "PushAll h0 s0 ps = Inr (h, s)"
    and "\<forall>(A, v)\<in>set ps. TTypeIndex A \<noteq> TTypeIndex T"
  shows "Begin (fst (Data s T)) = End (fst (Data s T)) \<and> view_length (fst (Data s T)) = 0
         \<and> Query h s T = Inr []"
proof -
  have "TypeMap s (TTypeIndex T) = TypeMap s0 (TTypeIndex T)"
    using assms(2,3) by (rule PushAll_other_key)
  then have n: "TypeMap s (TTypeIndex T) = None"
    by (simp add: assms(1))
  show ?thesis
    using view_length_None [OF n] Query_None [OF n] by (simp add: Data_None [OF n])
qed

text \<open>
  When the fingerprints of \<open>A\<close> and \<open>B\<close> differ, a \<open>Push\<close> of a value of type \<open>A\<close> leaves the
  view of \<open>B\<close> as it was: the same cursors over the same sequence of addresses.
\<close>

lemma Push_other_view:
  assumes "Push h s A v = Inr (h', s')"
    and "TTypeIndex A \<noteq> TTypeIndex B"
  shows "fst (Data s' B) = fst (Data s B)"
  using Push_other_key [OF assms] by (simp add: Data_def split: option.split)

subsection \<open>Concrete instances\<close>

lemma demo_fingerprints_differ: "TTypeIndex Int32 \<noteq> TTypeIndex Block64"
  by (simp add: TTypeIndex_def ComputeHash_def ComputeHash_loop.simps Prime_def Int32_def Block64_def)

lemma demo_push_int:
  "\<exists>h' s'. Push demo_heap (Construct 4096) Int32 [10, 0, 0, 0] = Inr (h', s')"
  by (simp add: Push_def Allocate_def PushChunk_def AlignedAlloc_def Align_def store_def
      Construct_def demo_heap_def Int32_def ChunkAlignment_def Let_def)

theorem query_of_unpushed_type_is_empty_witness:
  "TypeMap (Construct 4096) = Map.empty
   \<and> TTypeIndex Int32 \<noteq> TTypeIndex Block64
   \<and> (\<exists>h s. PushAll demo_heap (Construct 4096) [(Int32, [10, 0, 0, 0])] = Inr (h, s)
        \<and> Begin (fst (Data s Block64)) = End (fst (Data s Block64))
        \<and> view_length (fst (Data s Block64)) = 0
        \<and> Query h s Block64 = Inr [])"
proof -
  have a: "TypeMap (Construct 4096) = Map.empty"
    by (simp add: Construct_def)
  obtain h s where p: "Push demo_heap (Construct 4096) Int32 [10, 0, 0, 0] = Inr (h, s)"
    using demo_push_int by blast
  then have q: "PushAll demo_heap (Construct 4096) [(Int32, [10, 0, 0, 0])] = Inr (h, s)"
    by simp
  have c: "\<forall>(A, v)\<in>set [(Int32, [10, 0, 0, 0 :: byte])]. TTypeIndex A \<noteq> TTypeIndex Block64"
    by (simp add: demo_fingerprints_differ)
  note r = query_of_unpushed_type_is_empty [OF a q c]
  have "\<exists>h s. PushAll demo_heap (Construct 4096) [(Int32, [10, 0, 0, 0])] = Inr (h, s)
        \<and> Begin (fst (Data s Block64)) = End (fst (Data s Block64))
        \<and> view_length (fst (Data s Block64)) = 0
        \<and> Query h s Block64 = Inr []"
    by (rule exI [of _ h], rule exI [of _ s]) (rule conjI [OF q r])
  with a demo_fingerprints_differ show ?thesis
    by (intro conjI)
qed

subsection \<open>The moved-from container\<close>

text \<open>
  C1. The move constructor empties the pool of the moved-from container and keeps its
  cursors. After two pushes that filled one block of 64 bytes and moved to a second
  (\<open>ChunkHead = 1\<close>), a \<open>Push\<close> on the moved-from container appends a base block, rolls
  over, appends another one and then reads \<^verbatim>\<open>Chunks[2]\<close> of a pool of two blocks: the index
  is outside the pool.
\<close>

theorem moved_from_push_out_of_bounds:
  "\<exists>h2 s2. PushAll demo_heap (Construct 64) [(Block64, replicate 64 1), (Block64, replicate 64 2)]
             = Inr (h2, s2)
     \<and> Chunks s2 = [4096, 8192] \<and> ChunkHead s2 = 1 \<and> Head s2 = 64
     \<and> Chunks (snd (MoveConstruct s2)) = [] \<and> ChunkHead (snd (MoveConstruct s2)) = 1
     \<and> Head (snd (MoveConstruct s2)) = 64
     \<and> Push h2 (snd (MoveConstruct s2)) Block64 (replicate 64 3) = Inl IndexOutOfBounds"
  by (simp add: Push_def Allocate_def PushChunk_def AlignedAlloc_def Align_def store_def
      Construct_def MoveConstruct_def demo_heap_def Block64_def ChunkAlignment_def Let_def)

text \<open>With \<open>ChunkHead = 0\<close> at the move, the same \<open>Push\<close> lands in the fresh block, past the stale \<open>Head\<close>.\<close>

lemma moved_from_push_first_block:
  "\<exists>h1 s1. Push demo_heap (Construct 64) Int32 [10, 0, 0, 0] = Inr (h1, s1)
     \<and> Chunks s1 = [4096] \<and> ChunkHead s1 = 0 \<and> Head s1 = 4
     \<and> Chunks (snd (MoveConstruct s1)) = []
     \<and> (\<exists>h2 s2. Push h1 (snd (MoveConstruct s1)) Int32 [20, 0, 0, 0] = Inr (h2, s2)
           \<and> Chunks s2 = [8192] \<and> TypeMap s2 (TTypeIndex Int32) = Some [8196])"
  by (simp add: Push_def Allocate_def PushChunk_def AlignedAlloc_def Align_def store_def
      Construct_def MoveConstruct_def demo_heap_def Int32_def ChunkAlignment_def Let_def)

subsection \<open>The round trip of pushed values\<close>

lemma disjoint_blocks_nth:
  "disjoint_blocks n bs \<Longrightarrow> i < j \<Longrightarrow> j < length bs \<Longrightarrow> bs ! i + n \<le> bs ! j \<or> bs ! j + n \<le> bs ! i"
proof (induction bs arbitrary: i j)
  case Nil
  then show ?case by simp
next
  case (Cons b bs)
  show ?case
  proof (cases i)
    case 0
    then obtain j' where j: "j = Suc j'" using Cons.prems(2) by (cases j) auto
    then have "bs ! j' \<in> set bs" using Cons.prems(3) by simp
    then show ?thesis using Cons.prems(1) 0 j by auto
  next
    case (Suc i')
    then obtain j' where j: "j = Suc j'" using Cons.prems(2) by (cases j) auto
    then show ?thesis using Cons.IH [of i' j'] Cons.prems Suc by simp
  qed
qed

lemma disjoint_blocks_neq:
  assumes "disjoint_blocks n bs" and "i < length bs" and "j < length bs" and "i \<noteq> j"
  shows "bs ! i + n \<le> bs ! j \<or> bs ! j + n \<le> bs ! i"
proof (cases "i < j")
  case True
  then show ?thesis using disjoint_blocks_nth [OF assms(1) True assms(3)] by simp
next
  case False
  then have "j < i" using assms(4) by simp
  then show ?thesis using disjoint_blocks_nth [OF assms(1) _ assms(2), of j] by auto
qed

lemma align_up_0: "align_up 0 a = 0"
  by (cases a) (simp_all add: align_up_def)

lemma append_block_eq:
  "block_size A < 2 ^ 32 \<Longrightarrow>
   append_block h A = (grab h (block_size A), A\<lparr>pool := pool A @ [next_block h]\<rparr>)"
proof -
  assume "block_size A < 2 ^ 32"
  then have "block_size A < 2 ^ 64" by simp
  then have "unat (of_nat (block_size A) :: 64 word) = block_size A"
    by (simp add: unat_of_nat)
  then show ?thesis
    by (simp add: append_block_def AlignedAlloc_def grab_def next_block_def split: list.splits)
qed

lemma Allocate_spec_cases:
  assumes ok: "arena_ok h A" and n: "n \<le> block_size A"
  shows "Allocate_spec h A n a =
    (if pool A = [] then
       Some (next_block h, grab h (block_size A), A\<lparr>pool := [next_block h], offset := n\<rparr>)
     else if align_up (offset A) a + n \<le> block_size A then
       Some (pool A ! active A + align_up (offset A) a, h, A\<lparr>offset := align_up (offset A) a + n\<rparr>)
     else if active A + 1 < length (pool A) then
       Some (pool A ! (active A + 1), h, A\<lparr>offset := n, active := active A + 1\<rparr>)
     else
       Some (next_block h, grab h (block_size A),
             A\<lparr>pool := pool A @ [next_block h], offset := n, active := active A + 1\<rparr>))"
proof -
  have bs: "block_size A < 2 ^ 32" using ok by (simp add: arena_ok_def)
  show ?thesis
  proof (cases "pool A = []")
    case True
    then have "offset A = 0" "active A = 0" using ok by (simp_all add: arena_ok_def)
    then show ?thesis
      using True n bs by (simp add: Allocate_spec_def append_block_eq align_up_0 Let_def)
  next
    case False
    then have act: "active A < length (pool A)" using ok by (simp add: arena_ok_def)
    show ?thesis
      using False act bs
      by (auto simp: Allocate_spec_def append_block_eq Let_def nth_append not_le not_less)
  qed
qed

lemma blocks_apart:
  assumes "disjoint_blocks n bs" and "i < length bs" and "j < length bs" and "i \<noteq> j"
    and "bs ! i \<le> x" and "x < bs ! i + n" and "bs ! j \<le> x" and "x < bs ! j + n"
  shows False
  using disjoint_blocks_neq [OF assms(1-4)] assms(5-8) by linarith

lemma used_in_block:
  assumes "arena_ok h A" and "used A x"
  shows "\<exists>i<length (pool A). i \<le> active A \<and> pool A ! i \<le> x \<and> x < pool A ! i + block_size A"
proof -
  from assms(2) obtain i where i: "i < length (pool A)" "i \<le> active A" "pool A ! i \<le> x"
    "x < pool A ! i + (if i = active A then offset A else block_size A)"
    by (auto simp: used_def)
  have "offset A \<le> block_size A" using assms(1) by (simp add: arena_ok_def)
  with i(4) have "x < pool A ! i + block_size A" by (auto split: if_splits)
  with i(1-3) show ?thesis by blast
qed

lemma not_writable_null: "arena_ok h A \<Longrightarrow> \<not> writable h 0 n"
  by (auto simp: arena_ok_def writable_def list_ex_iff)

lemma grab_empty: "Supply h = [] \<Longrightarrow> grab h m = h \<and> next_block h = 0"
  by (simp add: grab_def next_block_def)

lemma grab_Cons:
  "Supply h = x # rest \<Longrightarrow>
     grab h m = h\<lparr>Supply := rest, Live := (x, m) # Live h\<rparr> \<and> next_block h = x"
  by (simp add: grab_def next_block_def)

lemma step_fits:
  assumes ok: "arena_ok h A" and a: "0 < a" and ne: "pool A \<noteq> []"
    and fit: "align_up (offset A) a + n \<le> block_size A"
  defines "A' \<equiv> A\<lparr>offset := align_up (offset A) a + n\<rparr>"
    and "p \<equiv> pool A ! active A + align_up (offset A) a"
  shows "arena_ok h A'"
    and "\<And>x. used A x \<Longrightarrow> used A' x"
    and "\<And>x. p \<le> x \<Longrightarrow> x < p + n \<Longrightarrow> used A' x \<and> \<not> used A x"
    and "writable h p n"
proof -
  have ge: "offset A \<le> align_up (offset A) a" using a by (rule align_up_ge)
  have act: "active A < length (pool A)" using ok ne by (simp add: arena_ok_def)
  show "arena_ok h A'"
    using ok fit ne by (simp add: arena_ok_def A'_def)
  show "used A' x" if "used A x" for x
  proof -
    from that obtain i where i: "i < length (pool A)" "i \<le> active A" "pool A ! i \<le> x"
      "x < pool A ! i + (if i = active A then offset A else block_size A)"
      by (auto simp: used_def)
    have "x < pool A ! i + (if i = active A then align_up (offset A) a + n else block_size A)"
      using i(4) ge by (auto split: if_splits)
    with i(1-3) show ?thesis
      unfolding used_def A'_def by (intro exI [of _ i]) (auto split: if_splits)
  qed
  show "used A' x \<and> \<not> used A x" if px: "p \<le> x" "x < p + n" for x
  proof
    show "used A' x"
      unfolding used_def A'_def using px act by (auto simp: p_def intro!: exI [of _ "active A"])
    show "\<not> used A x"
    proof
      assume "used A x"
      then obtain i where i: "i < length (pool A)" "i \<le> active A" "pool A ! i \<le> x"
        "x < pool A ! i + (if i = active A then offset A else block_size A)"
        by (auto simp: used_def)
      show False
      proof (cases "i = active A")
        case True
        then show False using i(4) px(1) ge by (simp add: p_def)
      next
        case False
        have d: "disjoint_blocks (block_size A) (pool A @ Supply h)"
          using ok by (simp add: arena_ok_def)
        have "(pool A @ Supply h) ! i = pool A ! i" "(pool A @ Supply h) ! active A = pool A ! active A"
          using i(1) act by (simp_all add: nth_append)
        moreover have "pool A ! active A \<le> x" "x < pool A ! active A + block_size A"
          using px fit by (simp_all add: p_def)
        moreover have "x < pool A ! i + block_size A"
          using i(4) False by simp
        ultimately show False
          using blocks_apart [OF d, of i "active A" x] i(1,3) act False by simp
      qed
    qed
  qed
  have "(pool A ! active A, block_size A) \<in> set (Live h)"
    using ok act by (simp add: arena_ok_def)
  then show "writable h p n"
    using fit by (auto simp: writable_def list_ex_iff p_def intro!: bexI [of _ "(pool A ! active A, block_size A)"])
qed

lemma step_new_block:
  assumes ok: "arena_ok h A" and n: "n \<le> block_size A"
    and A': "pool A' = pool'" "offset A' = n" "active A' = j" "block_size A' = block_size A"
    and all: "pool' @ Supply h' = pool A @ Supply h"
    and len: "length (pool A) \<le> length pool'"
    and j: "j < length pool'"
    and jc: "if pool A = [] then j = 0 else j = active A + 1"
    and live: "\<forall>c\<in>set pool'. (c, block_size A) \<in> set (Live h')"
    and pos: "\<forall>(b, m)\<in>set (Live h'). 0 < b" "\<forall>x\<in>set (Supply h'). 0 < x"
  shows "arena_ok h' A'"
    and "\<And>x. used A x \<Longrightarrow> used A' x"
    and "\<And>x. pool' ! j \<le> x \<Longrightarrow> x < pool' ! j + n \<Longrightarrow> used A' x \<and> \<not> used A x"
    and "writable h' (pool' ! j) n"
proof -
  have d: "disjoint_blocks (block_size A) (pool' @ Supply h')"
    using ok by (simp add: arena_ok_def all)
  have same: "pool' ! i = pool A ! i" if "i < length (pool A)" for i
  proof -
    have "(pool' @ Supply h') ! i = pool' ! i" using that len by (simp add: nth_append)
    moreover have "(pool A @ Supply h) ! i = pool A ! i" using that by (simp add: nth_append)
    ultimately show ?thesis by (simp add: all)
  qed
  have below: "i < j" if "i < length (pool A)" "i \<le> active A" for i
    using that jc by (auto split: if_splits)
  show "arena_ok h' A'"
    using ok n j d live pos by (auto simp: arena_ok_def A')
  show "used A' x" if "used A x" for x
  proof -
    from used_in_block [OF ok that] obtain i where
      i: "i < length (pool A)" "i \<le> active A" "pool A ! i \<le> x" "x < pool A ! i + block_size A"
      by blast
    have "i < j" using i(1,2) by (rule below)
    then show ?thesis
      unfolding used_def A' using i len same [OF i(1)]
      by (intro exI [of _ i]) auto
  qed
  show "used A' x \<and> \<not> used A x" if px: "pool' ! j \<le> x" "x < pool' ! j + n" for x
  proof
    show "used A' x"
      unfolding used_def A' using px j by (intro exI [of _ j]) simp
    show "\<not> used A x"
    proof
      assume "used A x"
      from used_in_block [OF ok this] obtain i where
        i: "i < length (pool A)" "i \<le> active A" "pool A ! i \<le> x" "x < pool A ! i + block_size A"
        by blast
      have ij: "i < j" using i(1,2) by (rule below)
      have "(pool' @ Supply h') ! i = pool A ! i" "(pool' @ Supply h') ! j = pool' ! j"
        using i(1) len j same [OF i(1)] by (simp_all add: nth_append)
      moreover have "x < pool' ! j + block_size A" using px(2) n by simp
      ultimately show False
        using blocks_apart [OF d, of i j x] i(1,3,4) len j ij px(1) by simp
    qed
  qed
  have "(pool' ! j, block_size A) \<in> set (Live h')"
    using live j by simp
  then show "writable h' (pool' ! j) n"
    using n by (auto simp: writable_def list_ex_iff intro!: bexI [of _ "(pool' ! j, block_size A)"])
qed

lemma Allocate_spec_step:
  assumes ok: "arena_ok h A" and n: "n \<le> block_size A" and a: "0 < a"
    and r: "Allocate_spec h A n a = Some (p, h', A')"
    and w: "writable h' p n"
  shows "arena_ok h' A' \<and> pool A' @ Supply h' = pool A @ Supply h
         \<and> block_size A' = block_size A \<and> Bytes h' = Bytes h
         \<and> (\<forall>x. used A x \<longrightarrow> used A' x)
         \<and> (\<forall>x. p \<le> x \<and> x < p + n \<longrightarrow> used A' x \<and> \<not> used A x)
         \<and> (offset A' = align_up (offset A) a + n \<or> offset A' = n)"
proof -
  note c = Allocate_spec_cases [OF ok n, of a]
  have sup: "\<exists>x rest. Supply h = x # rest" if "p = next_block h" "h' = grab h (block_size A)"
  proof (cases "Supply h")
    case Nil
    then have "p = 0" "h' = h" using that grab_empty [OF Nil] by simp_all
    then show ?thesis using w not_writable_null [OF ok] by simp
  next
    case (Cons x rest)
    then show ?thesis by blast
  qed
  have posA: "\<forall>(b, m)\<in>set (Live h). 0 < b" "\<forall>x\<in>set (Supply h). 0 < x"
    and liveA: "\<forall>c\<in>set (pool A). (c, block_size A) \<in> set (Live h)"
    using ok by (simp_all add: arena_ok_def)
  consider (first) "pool A = []"
    | (fits) "pool A \<noteq> []" "align_up (offset A) a + n \<le> block_size A"
    | (nxt) "pool A \<noteq> []" "\<not> align_up (offset A) a + n \<le> block_size A" "active A + 1 < length (pool A)"
    | (grow) "pool A \<noteq> []" "\<not> align_up (offset A) a + n \<le> block_size A" "\<not> active A + 1 < length (pool A)"
    by blast
  then show ?thesis
  proof cases
    case first
    with c r have e: "p = next_block h" "h' = grab h (block_size A)"
      "A' = A\<lparr>pool := [next_block h], offset := n\<rparr>"
      by simp_all
    from sup [OF e(1,2)] obtain x rest where s: "Supply h = x # rest" by blast
    note g = grab_Cons [OF s, of "block_size A"]
    have act: "active A = 0" using ok first by (simp add: arena_ok_def)
    have f: "pool A' = [x]" "offset A' = n" "active A' = 0" "block_size A' = block_size A"
      using e(3) g act by simp_all
    have h': "h' = h\<lparr>Supply := rest, Live := (x, block_size A) # Live h\<rparr>" and px: "p = x"
      using e g by simp_all
    note st = step_new_block [OF ok n f]
    have pre: "[x] @ Supply h' = pool A @ Supply h" "length (pool A) \<le> length [x]" "0 < length [x]"
      "if pool A = [] then (0::nat) = 0 else 0 = active A + 1"
      "\<forall>c\<in>set [x]. (c, block_size A) \<in> set (Live h')"
      "\<forall>(b, m)\<in>set (Live h'). 0 < b" "\<forall>x\<in>set (Supply h'). 0 < x"
      using first s posA by (auto simp: h')
    show ?thesis
      using st [OF pre] f px by (simp add: h' s first)
  next
    case fits
    with c r have e: "p = pool A ! active A + align_up (offset A) a" "h' = h"
      "A' = A\<lparr>offset := align_up (offset A) a + n\<rparr>"
      by simp_all
    show ?thesis
      using step_fits [OF ok a fits] by (simp add: e)
  next
    case nxt
    with c r have e: "p = pool A ! (active A + 1)" "h' = h"
      "A' = A\<lparr>offset := n, active := active A + 1\<rparr>"
      by simp_all
    have f: "pool A' = pool A" "offset A' = n" "active A' = active A + 1" "block_size A' = block_size A"
      using e(3) by simp_all
    have pre: "pool A @ Supply h' = pool A @ Supply h" "length (pool A) \<le> length (pool A)"
      "active A + 1 < length (pool A)"
      "if pool A = [] then active A + 1 = 0 else active A + 1 = active A + 1"
      "\<forall>c\<in>set (pool A). (c, block_size A) \<in> set (Live h')"
      "\<forall>(b, m)\<in>set (Live h'). 0 < b" "\<forall>x\<in>set (Supply h'). 0 < x"
      using nxt posA liveA by (auto simp: e(2))
    show ?thesis
      using step_new_block [OF ok n f pre] f by (simp add: e(1,2))
  next
    case grow
    with c r have e: "p = next_block h" "h' = grab h (block_size A)"
      "A' = A\<lparr>pool := pool A @ [next_block h], offset := n, active := active A + 1\<rparr>"
      by simp_all
    from sup [OF e(1,2)] obtain x rest where s: "Supply h = x # rest" by blast
    note g = grab_Cons [OF s, of "block_size A"]
    have act: "active A < length (pool A)" using ok grow(1) by (simp add: arena_ok_def)
    with grow(3) have al: "active A + 1 = length (pool A)" by simp
    have f: "pool A' = pool A @ [x]" "offset A' = n" "active A' = active A + 1"
      "block_size A' = block_size A"
      using e(3) g by simp_all
    have h': "h' = h\<lparr>Supply := rest, Live := (x, block_size A) # Live h\<rparr>" and px: "p = x"
      using e g by simp_all
    have pre: "(pool A @ [x]) @ Supply h' = pool A @ Supply h"
      "length (pool A) \<le> length (pool A @ [x])" "active A + 1 < length (pool A @ [x])"
      "if pool A = [] then active A + 1 = 0 else active A + 1 = active A + 1"
      "\<forall>c\<in>set (pool A @ [x]). (c, block_size A) \<in> set (Live h')"
      "\<forall>(b, m)\<in>set (Live h'). 0 < b" "\<forall>x\<in>set (Supply h'). 0 < x"
      using grow(1) s posA liveA al by (auto simp: h')
    have nth: "(pool A @ [x]) ! (active A + 1) = x"
      using al by (simp add: nth_append)
    show ?thesis
      using step_new_block [OF ok n f pre] f px nth by (simp add: h' s)
  qed
qed

lemma Allocate_spec_stepD:
  assumes "arena_ok h A" and "n \<le> block_size A" and "0 < a"
    and "Allocate_spec h A n a = Some (p, h', A')"
    and "writable h' p n"
  shows "arena_ok h' A'" and "pool A' @ Supply h' = pool A @ Supply h"
    and "block_size A' = block_size A" and "Bytes h' = Bytes h"
    and "\<And>x. used A x \<Longrightarrow> used A' x"
    and "\<And>x. p \<le> x \<Longrightarrow> x < p + n \<Longrightarrow> used A' x \<and> \<not> used A x"
    and "offset A' = align_up (offset A) a + n \<or> offset A' = n"
  using Allocate_spec_step [OF assms] by blast+

lemma Allocate_spec_total:
  assumes ok: "arena_ok h A" and n: "n \<le> block_size A" and a: "0 < a"
    and s: "Supply h \<noteq> []"
  shows "\<exists>p h' A'. Allocate_spec h A n a = Some (p, h', A') \<and> writable h' p n
           \<and> length (Supply h) \<le> Suc (length (Supply h'))"
proof -
  note c = Allocate_spec_cases [OF ok n, of a]
  from s obtain x rest where sx: "Supply h = x # rest" by (cases "Supply h") auto
  note g = grab_Cons [OF sx, of "block_size A"]
  have liveA: "\<forall>c\<in>set (pool A). (c, block_size A) \<in> set (Live h)"
    using ok by (simp add: arena_ok_def)
  have wnew: "writable (h\<lparr>Supply := rest, Live := (x, block_size A) # Live h\<rparr>) x n"
    using n by (simp add: writable_def)
  consider (first) "pool A = []"
    | (fits) "pool A \<noteq> []" "align_up (offset A) a + n \<le> block_size A"
    | (nxt) "pool A \<noteq> []" "\<not> align_up (offset A) a + n \<le> block_size A" "active A + 1 < length (pool A)"
    | (grow) "pool A \<noteq> []" "\<not> align_up (offset A) a + n \<le> block_size A" "\<not> active A + 1 < length (pool A)"
    by blast
  then show ?thesis
  proof cases
    case first
    then show ?thesis using c g wnew sx by simp
  next
    case fits
    then show ?thesis using c step_fits(4) [OF ok a fits] by simp
  next
    case nxt
    have "(pool A ! (active A + 1), block_size A) \<in> set (Live h)"
      using liveA nxt(3) by simp
    then have "writable h (pool A ! (active A + 1)) n"
      using n by (auto simp: writable_def list_ex_iff intro!: bexI [of _ "(pool A ! (active A + 1), block_size A)"])
    then show ?thesis using c nxt by simp
  next
    case grow
    then show ?thesis using c g wnew sx by simp
  qed
qed

lemma store_Inr:
  assumes "store h p v = Inr h'"
  shows "writable h p (length v)" and "Supply h' = Supply h" and "Live h' = Live h"
    and "\<And>x. Bytes h' x = (if p \<le> x \<and> x < p + length v then v ! (x - p) else Bytes h x)"
  using assms by (auto simp: store_def writable_def split: if_splits)

lemma store_writable:
  "writable h p (length v) \<Longrightarrow> \<exists>h'. store h p v = Inr h'"
  by (simp add: store_def writable_def)

lemma load_store_same:
  assumes "store h p v = Inr h'"
  shows "load h' p (length v) = v"
  by (rule nth_equalityI) (simp_all add: load_def store_Inr(4) [OF assms])

lemma load_frame:
  assumes "\<And>x. q \<le> x \<Longrightarrow> x < q + m \<Longrightarrow> Bytes h' x = Bytes h x"
  shows "load h' q m = load h q m"
  using assms by (simp add: load_def)

lemma arena_ok_heap_cong:
  "Supply h' = Supply h \<Longrightarrow> Live h' = Live h \<Longrightarrow> arena_ok h' A = arena_ok h A"
  by (simp add: arena_ok_def)

lemma allocate_result_Some:
  "allocate_result r = Some (p, h, A) \<Longrightarrow> \<exists>s. r = Inr (p, h, s) \<and> arena_of s = A"
  by (auto simp: allocate_result_def split: sum.splits)

lemma ChunkHead_no_wrap:
  assumes "arena_ok h (arena_of s)" and "length (Chunks s) + length (Supply h) < 2 ^ 32"
  shows "unat (ChunkHead s) + 1 < 2 ^ 32"
proof (cases "Chunks s = []")
  case True
  then have "ChunkHead s = 0"
    using assms(1) by (simp add: arena_ok_def arena_of_simps unat_eq_zero)
  then show ?thesis by simp
next
  case False
  then have "unat (ChunkHead s) < length (Chunks s)"
    using assms(1) by (simp add: arena_ok_def arena_of_simps)
  with assms(2) show ?thesis by simp
qed

lemma Push_step:
  assumes inv: "frame_inv h s ps"
    and push: "Push h s T v = Inr (h', s')"
    and ty: "type_ok s T v"
    and nw: "align_up (unat (Head s)) (unat (AlignOf T)) < 2 ^ 32"
  shows "frame_inv h' s' (ps @ [(T, CopyCtor T v)]) \<and> ChunkSize s' = ChunkSize s
         \<and> (unat (Head s') = align_up (unat (Head s)) (unat (AlignOf T)) + unat (SizeOf T)
             \<or> unat (Head s') = unat (SizeOf T))"
proof -
  have ok: "arena_ok h (arena_of s)" and cnt: "length (Chunks s) + length (Supply h) < 2 ^ 32"
    and reg: "registry_holds h s ps"
    using inv by (simp_all add: frame_inv_def)
  have al: "valid_align (AlignOf T)" and sz: "unat (SizeOf T) \<le> unat (ChunkSize s)"
    and lv: "length (CopyCtor T v) = unat (SizeOf T)"
    using ty by (simp_all add: type_ok_def)
  define c where "c = CopyCtor T v"
  have lc: "length c = unat (SizeOf T)" using lv by (simp add: c_def)
  from Push_registry [OF push] obtain Ptr h1 s1 where
    a: "Allocate h s (SizeOf T) (AlignOf T) = Inr (Ptr, h1, s1)" and
    st: "store h1 Ptr c = Inr h'" and
    s': "s' = s1\<lparr>TypeMap := (TypeMap s1)(TTypeIndex T \<mapsto>
                 (case TypeMap s1 (TTypeIndex T) of None \<Rightarrow> [] | Some l \<Rightarrow> l) @ [Ptr])\<rparr>"
    unfolding c_def by blast
  have spec: "Allocate_spec h (arena_of s) (unat (SizeOf T)) (unat (AlignOf T)) = Some (Ptr, h1, arena_of s1)"
    using Allocate_refines [OF al sz nw ChunkHead_no_wrap [OF ok cnt], of h]
    by (simp add: a allocate_result_def)
  have w: "writable h1 Ptr (unat (SizeOf T))"
    using store_Inr(1) [OF st] by (simp add: lc)
  have n: "unat (SizeOf T) \<le> block_size (arena_of s)"
    using sz by (simp add: arena_of_simps)
  note step = Allocate_spec_stepD [OF ok n valid_align_pos [OF al] spec w]
  have A': "arena_of s' = arena_of s1" by (simp add: arena_of_def s')
  have ok': "arena_ok h' (arena_of s')"
    using step(1) by (simp only: A' arena_ok_heap_cong [OF store_Inr(2,3) [OF st]])
  have "length (pool (arena_of s1) @ Supply h1) = length (pool (arena_of s) @ Supply h)"
    by (simp only: step(2))
  then have cnt': "length (Chunks s') + length (Supply h') < 2 ^ 32"
    using cnt store_Inr(2) [OF st] by (simp add: arena_of_simps s')
  have cs: "ChunkSize s' = ChunkSize s"
    using Allocate_frame [OF a] by (simp add: s')
  have hd: "unat (Head s') = align_up (unat (Head s)) (unat (AlignOf T)) + unat (SizeOf T)
             \<or> unat (Head s') = unat (SizeOf T)"
    using step(7) by (simp add: arena_of_simps s')
  have mono: "used (arena_of s') x" if "used (arena_of s) x" for x
    using step(5) [OF that] by (simp only: A')
  have fresh: "used (arena_of s') x \<and> \<not> used (arena_of s) x" if "Ptr \<le> x" "x < Ptr + length c" for x
    using step(6) [of x] that by (simp add: A' lc)
  have bytes: "Bytes h' x = Bytes h x" if "used (arena_of s) x" for x
  proof -
    have "\<not> (Ptr \<le> x \<and> x < Ptr + length c)" using fresh that by blast
    then have "Bytes h' x = Bytes h1 x" by (auto simp: store_Inr(4) [OF st])
    then show ?thesis by (simp add: step(4))
  qed
  have keep: "(\<forall>x. p \<le> x \<and> x < p + length u \<longrightarrow> used (arena_of s') x) \<and> load h' p (length u) = u"
    if "(\<forall>x. p \<le> x \<and> x < p + length u \<longrightarrow> used (arena_of s) x) \<and> load h p (length u) = u" for p u
  proof -
    have "load h' p (length u) = load h p (length u)"
      using that bytes by (intro load_frame) simp
    then show ?thesis using that mono by simp
  qed
  have new: "(\<forall>x. Ptr \<le> x \<and> x < Ptr + length c \<longrightarrow> used (arena_of s') x) \<and> load h' Ptr (length c) = c"
    using fresh load_store_same [OF st] by simp
  have tm: "TypeMap s1 = TypeMap s" using Allocate_frame [OF a] by simp
  have reg': "registry_holds h' s' (ps @ [(T, c)])"
    unfolding registry_holds_def
  proof
    fix k
    let ?P = "\<lambda>h s p (T, v). (\<forall>x. p \<le> x \<and> x < p + length v \<longrightarrow> used (arena_of s) x) \<and> load h p (length v) = v"
    let ?old = "case TypeMap s k of None \<Rightarrow> [] | Some l \<Rightarrow> l"
    have old: "list_all2 (?P h s) ?old (filter (\<lambda>(T, v). TTypeIndex T = k) ps)"
      using reg by (simp add: registry_holds_def)
    have old': "list_all2 (?P h' s') ?old (filter (\<lambda>(T, v). TTypeIndex T = k) ps)"
      using old by (rule list_all2_mono) (use keep in auto)
    show "list_all2 (?P h' s') (case TypeMap s' k of None \<Rightarrow> [] | Some l \<Rightarrow> l)
            (filter (\<lambda>(T, v). TTypeIndex T = k) (ps @ [(T, c)]))"
    proof (cases "TTypeIndex T = k")
      case True
      then have "(case TypeMap s' k of None \<Rightarrow> [] | Some l \<Rightarrow> l) = ?old @ [Ptr]"
        by (simp add: s' tm)
      then show ?thesis
        using True old' new by (simp add: list_all2_appendI)
    next
      case False
      then have "(case TypeMap s' k of None \<Rightarrow> [] | Some l \<Rightarrow> l) = ?old"
        by (simp add: s' tm)
      then show ?thesis
        using False old' by simp
    qed
  qed
  show ?thesis
    using ok' cnt' reg' cs hd by (simp add: frame_inv_def c_def)
qed

lemma Push_total:
  assumes inv: "frame_inv h s ps"
    and ty: "type_ok s T v"
    and nw: "align_up (unat (Head s)) (unat (AlignOf T)) < 2 ^ 32"
    and sup: "Supply h \<noteq> []"
  shows "\<exists>h' s'. Push h s T v = Inr (h', s') \<and> length (Supply h) \<le> Suc (length (Supply h'))"
proof -
  have ok: "arena_ok h (arena_of s)" and cnt: "length (Chunks s) + length (Supply h) < 2 ^ 32"
    using inv by (simp_all add: frame_inv_def)
  have al: "valid_align (AlignOf T)" and sz: "unat (SizeOf T) \<le> unat (ChunkSize s)"
    and lv: "length (CopyCtor T v) = unat (SizeOf T)"
    using ty by (simp_all add: type_ok_def)
  have n: "unat (SizeOf T) \<le> block_size (arena_of s)"
    using sz by (simp add: arena_of_simps)
  from Allocate_spec_total [OF ok n valid_align_pos [OF al] sup] obtain p h1 A1 where
    spec: "Allocate_spec h (arena_of s) (unat (SizeOf T)) (unat (AlignOf T)) = Some (p, h1, A1)"
    and w: "writable h1 p (unat (SizeOf T))"
    and len: "length (Supply h) \<le> Suc (length (Supply h1))"
    by blast
  have "allocate_result (Allocate h s (SizeOf T) (AlignOf T)) = Some (p, h1, A1)"
    using Allocate_refines [OF al sz nw ChunkHead_no_wrap [OF ok cnt], of h] by (simp add: spec)
  then obtain s1 where a: "Allocate h s (SizeOf T) (AlignOf T) = Inr (p, h1, s1)"
    using allocate_result_Some by blast
  from w obtain h2 where st: "store h1 p (CopyCtor T v) = Inr h2"
    using store_writable [of h1 p "CopyCtor T v"] by (auto simp: lv)
  have "Supply h2 = Supply h1" using store_Inr(2) [OF st] .
  then show ?thesis
    using len by (auto simp: Push_def a st Let_def split: option.splits)
qed

lemma type_ok_cong: "ChunkSize s' = ChunkSize s \<Longrightarrow> type_ok s' T v = type_ok s T v"
  by (simp add: type_ok_def)

lemma align_up_mono: "off \<le> off' \<Longrightarrow> align_up off a \<le> align_up off' a"
  unfolding align_up_def by (intro mult_le_mono1 div_le_mono) simp

lemma step_nowrap:
  assumes inv: "frame_inv h s ps"
    and nw: "align_up (unat (ChunkSize s)) (unat (AlignOf A)) < 2 ^ 32
             \<or> (0 < unat (AlignOf A) \<and> unat (AlignOf A) dvd unat (Head s))"
  shows "align_up (unat (Head s)) (unat (AlignOf A)) < 2 ^ 32"
proof -
  from nw show ?thesis
  proof
    assume b: "align_up (unat (ChunkSize s)) (unat (AlignOf A)) < 2 ^ 32"
    have "unat (Head s) \<le> unat (ChunkSize s)"
      using inv by (simp add: frame_inv_def arena_ok_def arena_of_simps)
    then have "align_up (unat (Head s)) (unat (AlignOf A))
                 \<le> align_up (unat (ChunkSize s)) (unat (AlignOf A))"
      by (rule align_up_mono)
    with b show ?thesis by simp
  next
    assume "0 < unat (AlignOf A) \<and> unat (AlignOf A) dvd unat (Head s)"
    then have "align_up (unat (Head s)) (unat (AlignOf A)) = unat (Head s)"
      by (simp add: align_up_id)
    then show ?thesis using unat_lt_2p32 [of "Head s"] by simp
  qed
qed

lemma constructed_simps:
  "constructed [] = []" "constructed ((A, v) # qs) = (A, CopyCtor A v) # constructed qs"
  "constructed (ps @ qs) = constructed ps @ constructed qs"
  by (simp_all add: constructed_def)

lemma PushAll_run:
  assumes "frame_inv h s ps"
    and "\<forall>(A, v)\<in>set qs. type_ok s A v"
    and "(\<forall>(A, v)\<in>set qs. align_up (unat (ChunkSize s)) (unat (AlignOf A)) < 2 ^ 32)
         \<or> ((\<forall>(A, v)\<in>set qs. A = T) \<and> unat (AlignOf T) dvd unat (Head s))"
  shows "(length qs \<le> length (Supply h) \<longrightarrow> (\<exists>h' s'. PushAll h s qs = Inr (h', s')))
         \<and> (\<forall>h' s'. PushAll h s qs = Inr (h', s') \<longrightarrow> frame_inv h' s' (ps @ constructed qs))"
  using assms
proof (induction qs arbitrary: h s ps)
  case Nil
  then show ?case by (simp add: constructed_simps)
next
  case (Cons q qs)
  obtain A v where q: "q = (A, v)" by (cases q)
  have ty: "type_ok s A v" using Cons.prems(2) by (simp add: q)
  have pos: "0 < unat (AlignOf A)"
    using ty by (simp add: type_ok_def valid_align_pos)
  have nwA: "align_up (unat (ChunkSize s)) (unat (AlignOf A)) < 2 ^ 32
             \<or> (0 < unat (AlignOf A) \<and> unat (AlignOf A) dvd unat (Head s))"
    using Cons.prems(3) pos by (auto simp: q)
  note nw = step_nowrap [OF Cons.prems(1) nwA]
  have after: "frame_inv h1 s1 (ps @ [(A, CopyCtor A v)])
      \<and> (\<forall>(B, w)\<in>set qs. type_ok s1 B w)
      \<and> ((\<forall>(B, w)\<in>set qs. align_up (unat (ChunkSize s1)) (unat (AlignOf B)) < 2 ^ 32)
           \<or> ((\<forall>(B, w)\<in>set qs. B = T) \<and> unat (AlignOf T) dvd unat (Head s1)))"
    if p: "Push h s A v = Inr (h1, s1)" for h1 s1
  proof -
    note st = Push_step [OF Cons.prems(1) p ty nw]
    have cs: "ChunkSize s1 = ChunkSize s" using st by simp
    have t: "\<forall>(B, w)\<in>set qs. type_ok s1 B w"
      using Cons.prems(2) by (auto simp: type_ok_cong [OF cs])
    have "(\<forall>(B, w)\<in>set qs. align_up (unat (ChunkSize s1)) (unat (AlignOf B)) < 2 ^ 32)
           \<or> ((\<forall>(B, w)\<in>set qs. B = T) \<and> unat (AlignOf T) dvd unat (Head s1))"
    proof (cases "\<forall>(B, w)\<in>set (q # qs). align_up (unat (ChunkSize s)) (unat (AlignOf B)) < 2 ^ 32")
      case True
      then show ?thesis by (simp add: cs)
    next
      case False
      then have all: "\<forall>(B, w)\<in>set (q # qs). B = T" and d: "unat (AlignOf T) dvd unat (Head s)"
        using Cons.prems(3) by auto
      then have AT: "A = T" by (simp add: q)
      have dn: "unat (AlignOf T) dvd unat (SizeOf T)"
        using ty by (simp add: type_ok_def AT)
      have "align_up (unat (Head s)) (unat (AlignOf T)) = unat (Head s)"
        using pos d by (simp add: align_up_id AT)
      then have "unat (Head s1) = unat (Head s) + unat (SizeOf T) \<or> unat (Head s1) = unat (SizeOf T)"
        using st by (simp add: AT)
      then have "unat (AlignOf T) dvd unat (Head s1)"
        using d dn by auto
      then show ?thesis using all by simp
    qed
    then show ?thesis using st t by simp
  qed
  show ?case
  proof (intro conjI impI allI)
    assume len: "length (q # qs) \<le> length (Supply h)"
    then have "Supply h \<noteq> []" by auto
    from Push_total [OF Cons.prems(1) ty nw this] obtain h1 s1 where
      p: "Push h s A v = Inr (h1, s1)" and l: "length (Supply h) \<le> Suc (length (Supply h1))"
      by blast
    from after [OF p] have i: "frame_inv h1 s1 (ps @ [(A, CopyCtor A v)])"
      and t: "\<forall>(B, w)\<in>set qs. type_ok s1 B w"
      and n: "(\<forall>(B, w)\<in>set qs. align_up (unat (ChunkSize s1)) (unat (AlignOf B)) < 2 ^ 32)
           \<or> ((\<forall>(B, w)\<in>set qs. B = T) \<and> unat (AlignOf T) dvd unat (Head s1))"
      by blast+
    have "length qs \<le> length (Supply h1)" using len l by simp
    with Cons.IH [OF i t n] obtain h' s' where "PushAll h1 s1 qs = Inr (h', s')" by blast
    then show "\<exists>h' s'. PushAll h s (q # qs) = Inr (h', s')"
      by (simp add: q p)
  next
    fix h' s'
    assume r: "PushAll h s (q # qs) = Inr (h', s')"
    then obtain h1 s1 where p: "Push h s A v = Inr (h1, s1)" and r1: "PushAll h1 s1 qs = Inr (h', s')"
      by (auto simp: q split: sum.splits)
    from after [OF p] have i: "frame_inv h1 s1 (ps @ [(A, CopyCtor A v)])"
      and t: "\<forall>(B, w)\<in>set qs. type_ok s1 B w"
      and n: "(\<forall>(B, w)\<in>set qs. align_up (unat (ChunkSize s1)) (unat (AlignOf B)) < 2 ^ 32)
           \<or> ((\<forall>(B, w)\<in>set qs. B = T) \<and> unat (AlignOf T) dvd unat (Head s1))"
      by blast+
    from Cons.IH [OF i t n] r1 have "frame_inv h' s' ((ps @ [(A, CopyCtor A v)]) @ constructed qs)"
      by blast
    then show "frame_inv h' s' (ps @ constructed (q # qs))" by (simp add: q constructed_simps)
  qed
qed

lemma iterate_from:
  "i \<le> length arr \<Longrightarrow>
   iterate h T (TIterator (arr, i)) (TIterator (arr, length arr)) =
     Inr (map (\<lambda>p. load h p (unat (SizeOf T))) (drop i arr))"
proof (induction "length arr - i" arbitrary: i)
  case 0
  then have "i = length arr" by simp
  then show ?case by (subst iterate.simps) simp
next
  case (Suc m)
  then have lt: "i < length arr" by simp
  then have d: "drop i arr = arr ! i # drop (Suc i) arr"
    by (simp add: Cons_nth_drop_Suc)
  have ih: "iterate h T (TIterator (arr, Suc i)) (TIterator (arr, length arr)) =
     Inr (map (\<lambda>p. load h p (unat (SizeOf T))) (drop (Suc i) arr))"
    using Suc(2) lt by (intro Suc(1)) simp_all
  show ?case
    using lt by (subst iterate.simps) (simp add: deref_def incr_def ih d del: drop_Suc_Cons)
qed

lemma Query_eq:
  "Query h s T =
     Inr (map (\<lambda>p. load h p (unat (SizeOf T)))
            (case TypeMap s (TTypeIndex T) of None \<Rightarrow> [] | Some l \<Rightarrow> l))"
proof (cases "TypeMap s (TTypeIndex T)")
  case None
  then show ?thesis by (simp add: Query_None)
next
  case (Some l)
  then show ?thesis
    using iterate_from [of 0 l h T] by (simp add: Query_def Data_def)
qed

lemma map_eq_of_list_all2:
  "list_all2 (\<lambda>x y. f x = g y) xs ys \<Longrightarrow> map f xs = map g ys"
  by (induction rule: list_all2_induct) simp_all

lemma Query_of_registry:
  assumes reg: "registry_holds h s ps"
    and sz: "\<forall>(A, v)\<in>set ps. TTypeIndex A = TTypeIndex T \<longrightarrow> length v = unat (SizeOf T)"
  shows "Query h s T = Inr (map snd (filter (\<lambda>(A, v). TTypeIndex A = TTypeIndex T) ps))"
proof -
  let ?ptrs = "case TypeMap s (TTypeIndex T) of None \<Rightarrow> [] | Some l \<Rightarrow> l"
  let ?es = "filter (\<lambda>(A, v). TTypeIndex A = TTypeIndex T) ps"
  have "list_all2 (\<lambda>p (A, v). (\<forall>x. p \<le> x \<and> x < p + length v \<longrightarrow> used (arena_of s) x)
                          \<and> load h p (length v) = v) ?ptrs ?es"
    using reg by (simp add: registry_holds_def)
  then have "list_all2 (\<lambda>p e. load h p (unat (SizeOf T)) = snd e) ?ptrs ?es"
  proof (rule list.rel_mono_strong)
    fix p e
    assume "p \<in> set ?ptrs" and e: "e \<in> set ?es"
      and P: "case e of (A, v) \<Rightarrow> (\<forall>x. p \<le> x \<and> x < p + length v \<longrightarrow> used (arena_of s) x)
                          \<and> load h p (length v) = v"
    obtain A v where ev: "e = (A, v)" by (cases e)
    have "length v = unat (SizeOf T)" using e sz by (auto simp: ev)
    then show "load h p (unat (SizeOf T)) = snd e" using P by (simp add: ev)
  qed
  then have "map (\<lambda>p. load h p (unat (SizeOf T))) ?ptrs = map snd ?es"
    by (rule map_eq_of_list_all2)
  then show ?thesis by (simp add: Query_eq)
qed

lemma reset_frame_inv:
  assumes "just_reset s" and "pool_ok h s"
  shows "frame_inv h s []"
proof -
  have "unat (ChunkSize s) < 2 ^ 32" using unat_lt_2p32 [of "ChunkSize s"] by simp
  moreover have "Chunks s \<noteq> [] \<Longrightarrow> 0 < length (Chunks s)" by simp
  ultimately show ?thesis
    using assms
    by (simp add: frame_inv_def arena_ok_def arena_of_simps registry_holds_def just_reset_def pool_ok_def)
qed

lemma constructed_filter:
  "map snd (filter (\<lambda>(A, v). TTypeIndex A = k) (constructed ps)) =
     map (\<lambda>(A, v). CopyCtor A v) (filter (\<lambda>(A, v). TTypeIndex A = k) ps)"
  by (induction ps) (auto simp: constructed_def)

lemma Query_of_frame:
  assumes inv: "frame_inv h s (constructed ps)"
    and ty: "\<forall>(A, v)\<in>set ps. type_ok s0 A v"
    and sz: "\<forall>(A, v)\<in>set ps. TTypeIndex A = TTypeIndex T \<longrightarrow> SizeOf A = SizeOf T"
  shows "Query h s T =
           Inr (map (\<lambda>(A, v). CopyCtor A v) (filter (\<lambda>(A, v). TTypeIndex A = TTypeIndex T) ps))"
proof -
  have reg: "registry_holds h s (constructed ps)"
    using inv by (simp add: frame_inv_def)
  have len: "\<forall>(A, w)\<in>set (constructed ps). TTypeIndex A = TTypeIndex T \<longrightarrow> length w = unat (SizeOf T)"
  proof clarify
    fix A w
    assume "(A, w) \<in> set (constructed ps)" and k: "TTypeIndex A = TTypeIndex T"
    then obtain v where m: "(A, v) \<in> set ps" and w: "w = CopyCtor A v"
      by (auto simp: constructed_def)
    from bspec [OF ty m] have "length (CopyCtor A v) = unat (SizeOf A)"
      by (simp add: type_ok_def)
    moreover from bspec [OF sz m] k have "SizeOf A = SizeOf T" by simp
    ultimately show "length w = unat (SizeOf T)" by (simp add: w)
  qed
  show ?thesis
    using Query_of_registry [OF reg len] by (simp add: constructed_filter)
qed

subsection \<open>The frame in which the aligned offset wraps\<close>

text \<open>
  \<^verbatim>\<open>FFrameData(0xFFFFFFFF)\<close>, then \<^verbatim>\<open>Push<Big>\<close> and \<^verbatim>\<open>Push<Block64>\<close>. Both types are trivially
  copyable, both sizes are at most \<open>ChunkSize\<close>, and the two keys differ. After the first
  push \<open>Head\<close> is \<open>0xFFFFFFC1\<close>; the second finds the aligned offset \<open>2^32\<close>, cut to 0 by
  \<open>Align\<close>, and is served at offset 0 of the same block: both values are recorded at the
  address \<open>4294967296\<close>, and the second overwrites the first 64 bytes of the first.
\<close>

lemma big_value_simps: "length big_value = 4294967233" "big_value ! 0 = 1"
  by (simp_all add: big_value_def)

lemma wide_fingerprints_differ: "TTypeIndex Block64 \<noteq> TTypeIndex Big"
  by (simp add: TTypeIndex_def ComputeHash_def ComputeHash_loop.simps Prime_def Big_def Block64_def)

lemma wide_push_big:
  "\<exists>h1. Push wide_heap0 (Construct 0xFFFFFFFF) Big big_value =
           Inr (h1, wide_state\<lparr>TypeMap := [TTypeIndex Big \<mapsto> [4294967296]]\<rparr>)
        \<and> store wide_heap 4294967296 big_value = Inr h1"
proof -
  have a: "Allocate wide_heap0 (Construct 0xFFFFFFFF) (SizeOf Big) (AlignOf Big) =
             Inr (4294967296, wide_heap, wide_state)"
    using wide_state_reachable by (simp add: Big_def)
  have "writable wide_heap 4294967296 (length big_value)"
    by (simp add: writable_def wide_heap_def big_value_simps)
  then obtain h1 where st: "store wide_heap 4294967296 big_value = Inr h1"
    using store_writable by blast
  have cp: "CopyCtor Big big_value = big_value" by (simp add: Big_def)
  have tm: "TypeMap wide_state (TTypeIndex Big) = None" by (simp add: wide_state_def)
  have "Push wide_heap0 (Construct 0xFFFFFFFF) Big big_value =
           Inr (h1, wide_state\<lparr>TypeMap := [TTypeIndex Big \<mapsto> [4294967296]]\<rparr>)"
    by (simp add: Push_def a cp st tm Let_def) (simp add: wide_state_def)
  with st show ?thesis by blast
qed

lemma wide_push_block:
  assumes "store wide_heap 4294967296 big_value = Inr h1"
  shows "\<exists>h2. Push h1 (wide_state\<lparr>TypeMap := [TTypeIndex Big \<mapsto> [4294967296]]\<rparr>) Block64
                 (replicate 64 7) =
           Inr (h2, wide_state\<lparr>Head := 64, TypeMap := [TTypeIndex Big \<mapsto> [4294967296],
                                                        TTypeIndex Block64 \<mapsto> [4294967296]]\<rparr>)
        \<and> store h1 4294967296 (replicate 64 7) = Inr h2"
proof -
  have a: "Allocate h1 (wide_state\<lparr>TypeMap := [TTypeIndex Big \<mapsto> [4294967296]]\<rparr>)
             (SizeOf Block64) (AlignOf Block64) =
           Inr (4294967296, h1, wide_state\<lparr>TypeMap := [TTypeIndex Big \<mapsto> [4294967296]], Head := 64\<rparr>)"
    by (simp add: Allocate_def Align_def wide_state_def Block64_def Let_def)
  have "writable h1 4294967296 (length (replicate 64 (7 :: byte)))"
    by (simp add: writable_def store_Inr(3) [OF assms] wide_heap_def)
  then obtain h2 where st: "store h1 4294967296 (replicate 64 7) = Inr h2"
    using store_writable by blast
  have cp: "CopyCtor Block64 v = v" for v by (simp add: Block64_def)
  have "Push h1 (wide_state\<lparr>TypeMap := [TTypeIndex Big \<mapsto> [4294967296]]\<rparr>) Block64
                 (replicate 64 7) =
           Inr (h2, wide_state\<lparr>Head := 64, TypeMap := [TTypeIndex Big \<mapsto> [4294967296],
                                                        TTypeIndex Block64 \<mapsto> [4294967296]]\<rparr>)"
    using wide_fingerprints_differ by (simp add: Push_def a cp st Let_def)
  with st show ?thesis by blast
qed

lemma load_nth: "i < n \<Longrightarrow> load h p n ! i = Bytes h (p + i)"
  by (simp add: load_def)

lemma wide_frame:
  "\<exists>h1 h2. Push wide_heap0 (Construct 0xFFFFFFFF) Big big_value =
             Inr (h1, wide_state\<lparr>TypeMap := [TTypeIndex Big \<mapsto> [4294967296]]\<rparr>)
     \<and> Push h1 (wide_state\<lparr>TypeMap := [TTypeIndex Big \<mapsto> [4294967296]]\<rparr>) Block64 (replicate 64 7) =
             Inr (h2, wide_state\<lparr>Head := 64, TypeMap := [TTypeIndex Big \<mapsto> [4294967296],
                                                          TTypeIndex Block64 \<mapsto> [4294967296]]\<rparr>)
     \<and> load h1 4294967296 4294967233 = big_value
     \<and> load h2 4294967296 64 = replicate 64 7
     \<and> load h2 4294967296 4294967233 ! 0 = 7"
proof -
  from wide_push_big obtain h1 where
    p1: "Push wide_heap0 (Construct 0xFFFFFFFF) Big big_value =
           Inr (h1, wide_state\<lparr>TypeMap := [TTypeIndex Big \<mapsto> [4294967296]]\<rparr>)"
    and s1: "store wide_heap 4294967296 big_value = Inr h1"
    by blast
  from wide_push_block [OF s1] obtain h2 where
    p2: "Push h1 (wide_state\<lparr>TypeMap := [TTypeIndex Big \<mapsto> [4294967296]]\<rparr>) Block64 (replicate 64 7) =
           Inr (h2, wide_state\<lparr>Head := 64, TypeMap := [TTypeIndex Big \<mapsto> [4294967296],
                                                        TTypeIndex Block64 \<mapsto> [4294967296]]\<rparr>)"
    and s2: "store h1 4294967296 (replicate 64 7) = Inr h2"
    by blast
  have l1: "load h1 4294967296 4294967233 = big_value"
    using load_store_same [OF s1] by (simp add: big_value_simps)
  have l2: "load h2 4294967296 64 = replicate 64 7"
    using load_store_same [OF s2] by simp
  have "load h2 4294967296 4294967233 ! 0 = Bytes h2 4294967296"
    by (simp add: load_nth)
  also have "\<dots> = 7"
    by (simp add: store_Inr(4) [OF s2])
  finally have l3: "load h2 4294967296 4294967233 ! 0 = 7" .
  from p1 p2 l1 l2 l3 show ?thesis by blast
qed

subsection \<open>Reading back what was pushed\<close>

text \<open>
  C3 (as amended). From a container that was just constructed or cleared, any sequence
  \<open>ps\<close> of pushes that keeps the contract of \<open>Push\<close> is read back by \<open>Query\<close>: for a type \<open>T\<close>
  whose fingerprint no other pushed type shares, iterating the view yields exactly the
  objects that the copy constructor of \<open>T\<close> made of the values pushed as \<open>T\<close>, in the order
  of the pushes; they are the pushed values byte for byte when the copy constructor of
  \<open>T\<close> copies the bytes, as that of a trivially copyable type does. The sequence may hold
  pushes of other types when \<open>ChunkSize\<close> aligned up to the alignment of each pushed type
  is below \<open>2^32\<close>; with pushes of \<open>T\<close> only, every block size is covered. The pushes
  succeed when the allocator can supply a block for each of them.
\<close>

theorem pushed_values_read_back:
  assumes "just_reset s0" and "pool_ok h0 s0"
    and ty: "\<forall>(A, v)\<in>set ps. type_ok s0 A v"
    and nc: "\<forall>(A, v)\<in>set ps. TTypeIndex A = TTypeIndex T \<longrightarrow> A = T"
    and nw: "(\<forall>(A, v)\<in>set ps. align_up (unat (ChunkSize s0)) (unat (AlignOf A)) < 2 ^ 32)
             \<or> (\<forall>(A, v)\<in>set ps. A = T)"
  shows "(length ps \<le> length (Supply h0) \<longrightarrow> (\<exists>h s. PushAll h0 s0 ps = Inr (h, s)))
       \<and> (\<forall>h s. PushAll h0 s0 ps = Inr (h, s) \<longrightarrow>
             Query h s T = Inr (map (\<lambda>(A, v). CopyCtor T v) (filter (\<lambda>(A, v). A = T) ps))
           \<and> ((\<forall>(A, v)\<in>set ps. A = T \<longrightarrow> CopyCtor T v = v) \<longrightarrow>
                 Query h s T = Inr (map snd (filter (\<lambda>(A, v). A = T) ps))))"
proof -
  note inv = reset_frame_inv [OF assms(1,2)]
  have "Head s0 = 0" using assms(1) by (simp add: just_reset_def)
  then have nw': "(\<forall>(A, v)\<in>set ps. align_up (unat (ChunkSize s0)) (unat (AlignOf A)) < 2 ^ 32)
         \<or> ((\<forall>(A, v)\<in>set ps. A = T) \<and> unat (AlignOf T) dvd unat (Head s0))"
    using nw by auto
  note run = PushAll_run [OF inv ty nw']
  have fl: "filter (\<lambda>(A, v). TTypeIndex A = TTypeIndex T) ps = filter (\<lambda>(A, v). A = T) ps"
    using nc by (intro filter_cong) auto
  have sz: "\<forall>(A, v)\<in>set ps. TTypeIndex A = TTypeIndex T \<longrightarrow> SizeOf A = SizeOf T"
    using nc by auto
  have q: "Query h s T = Inr (map (\<lambda>(A, v). CopyCtor T v) (filter (\<lambda>(A, v). A = T) ps))"
    if r: "PushAll h0 s0 ps = Inr (h, s)" for h s
  proof -
    have i: "frame_inv h s (constructed ps)" using run r by simp
    have "map (\<lambda>(A, v). CopyCtor A v) (filter (\<lambda>(A, v). A = T) ps)
            = map (\<lambda>(A, v). CopyCtor T v) (filter (\<lambda>(A, v). A = T) ps)"
      by (rule map_cong) auto
    then show ?thesis using Query_of_frame [OF i ty sz] by (simp add: fl)
  qed
  have q2: "Query h s T = Inr (map snd (filter (\<lambda>(A, v). A = T) ps))"
    if r: "PushAll h0 s0 ps = Inr (h, s)" and cp: "\<forall>(A, v)\<in>set ps. A = T \<longrightarrow> CopyCtor T v = v"
    for h s
  proof -
    have "map (\<lambda>(A, v). CopyCtor T v) (filter (\<lambda>(A, v). A = T) ps)
            = map snd (filter (\<lambda>(A, v). A = T) ps)"
      using cp by (intro map_cong) auto
    then show ?thesis using q [OF r] by simp
  qed
  show ?thesis using run q q2 by blast
qed

theorem pushed_values_read_back_witness:
  "just_reset (Construct 4096) \<and> pool_ok demo_heap (Construct 4096)
   \<and> type_ok (Construct 4096) Int32 [10, 0, 0, 0] \<and> type_ok (Construct 4096) Block64 (replicate 64 7)
   \<and> type_ok (Construct 4096) Int32 [20, 0, 0, 0] \<and> type_ok (Construct 4096) Int32 [30, 0, 0, 0]
   \<and> TTypeIndex Block64 \<noteq> TTypeIndex Int32
   \<and> align_up (unat (ChunkSize (Construct 4096))) (unat (AlignOf Int32)) < 2 ^ 32
   \<and> align_up (unat (ChunkSize (Construct 4096))) (unat (AlignOf Block64)) < 2 ^ 32
   \<and> CopyCtor Int32 [10, 0, 0, 0] = [10, 0, 0, 0] \<and> CopyCtor Int32 [20, 0, 0, 0] = [20, 0, 0, 0]
   \<and> CopyCtor Int32 [30, 0, 0, 0] = [30, 0, 0, 0]
   \<and> length demo_pushes \<le> length (Supply demo_heap)
   \<and> (\<exists>h s. PushAll demo_heap (Construct 4096) demo_pushes = Inr (h, s)
         \<and> Query h s Int32 = Inr [[10, 0, 0, 0], [20, 0, 0, 0], [30, 0, 0, 0]])"
proof -
  have a: "just_reset (Construct 4096)"
    by (simp add: just_reset_def Construct_def)
  have b: "pool_ok demo_heap (Construct 4096)"
    by (simp add: pool_ok_def Construct_def demo_heap_def)
  have t1: "type_ok (Construct 4096) Int32 [x, 0, 0, 0]" for x
    by (simp add: type_ok_def Construct_def Int32_def valid_align_def)
  have t2: "type_ok (Construct 4096) Block64 (replicate 64 7)"
    by (simp add: type_ok_def Construct_def Block64_def valid_align_def)
  have ne: "TTypeIndex Block64 \<noteq> TTypeIndex Int32"
    using demo_fingerprints_differ by simp
  have neT: "Block64 \<noteq> Int32"
    using ne by auto
  have c: "\<forall>(A, v)\<in>set demo_pushes. type_ok (Construct 4096) A v"
    by (simp add: demo_pushes_def t1 t2)
  have d: "\<forall>(A, v)\<in>set demo_pushes. TTypeIndex A = TTypeIndex Int32 \<longrightarrow> A = Int32"
    by (simp add: demo_pushes_def ne)
  have e1: "align_up (unat (ChunkSize (Construct 4096))) (unat (AlignOf Int32)) < 2 ^ 32"
    by (simp add: Construct_def Int32_def align_up_def)
  have e2: "align_up (unat (ChunkSize (Construct 4096))) (unat (AlignOf Block64)) < 2 ^ 32"
    by (simp add: Construct_def Block64_def align_up_def)
  have e: "(\<forall>(A, v)\<in>set demo_pushes.
              align_up (unat (ChunkSize (Construct 4096))) (unat (AlignOf A)) < 2 ^ 32)
       \<or> (\<forall>(A, v)\<in>set demo_pushes. A = Int32)"
    using e1 e2 by (simp add: demo_pushes_def)
  have cp: "CopyCtor Int32 v = v" for v
    by (simp add: Int32_def)
  have cps: "\<forall>(A, v)\<in>set demo_pushes. A = Int32 \<longrightarrow> CopyCtor Int32 v = v"
    by (simp add: cp)
  have l: "length demo_pushes \<le> length (Supply demo_heap)"
    by (simp add: demo_pushes_def demo_heap_def)
  note r = pushed_values_read_back [OF a b c d e]
  from r l obtain h s where p: "PushAll demo_heap (Construct 4096) demo_pushes = Inr (h, s)"
    by blast
  with r cps have "Query h s Int32 = Inr (map snd (filter (\<lambda>(A, v). A = Int32) demo_pushes))"
    by blast
  then have q: "Query h s Int32 = Inr [[10, 0, 0, 0], [20, 0, 0, 0], [30, 0, 0, 0]]"
    by (simp add: demo_pushes_def neT)
  have "\<exists>h s. PushAll demo_heap (Construct 4096) demo_pushes = Inr (h, s)
         \<and> Query h s Int32 = Inr [[10, 0, 0, 0], [20, 0, 0, 0], [30, 0, 0, 0]]"
    by (rule exI [of _ h], rule exI [of _ s]) (rule conjI [OF p q])
  with a b t1 t2 ne e1 e2 cp l show ?thesis
    by (intro conjI)
qed

text \<open>
  The claim as stated fails in two ways. By design: \<open>Push\<close> asks of a type only a trivial
  destructor and runs its copy constructor, so for \<open>Stamp\<close>, whose copy constructor adds
  one to every byte, \<open>Query\<close> yields \<open>[11, 1, 1, 1]\<close> where \<open>[10, 0, 0, 0]\<close> was pushed. By
  the cast in \<open>Align\<close>: in the frame of the previous subsection, which meets every other
  hypothesis of the theorem, the value pushed as \<open>Big\<close> is no longer what \<open>Query\<close> yields
  for \<open>Big\<close> after the push of a \<open>Block64\<close>; the amended claim leaves that frame out.
\<close>

theorem pushed_values_read_back_counterexample:
  "just_reset (Construct 4096) \<and> pool_ok demo_heap (Construct 4096)
   \<and> type_ok (Construct 4096) Stamp [10, 0, 0, 0]
   \<and> align_up (unat (ChunkSize (Construct 4096))) (unat (AlignOf Stamp)) < 2 ^ 32
   \<and> (\<exists>h s. PushAll demo_heap (Construct 4096) [(Stamp, [10, 0, 0, 0])] = Inr (h, s)
         \<and> Query h s Stamp = Inr [[11, 1, 1, 1]])
   \<and> just_reset (Construct 0xFFFFFFFF) \<and> pool_ok wide_heap0 (Construct 0xFFFFFFFF)
   \<and> type_ok (Construct 0xFFFFFFFF) Big big_value
   \<and> type_ok (Construct 0xFFFFFFFF) Block64 (replicate 64 7)
   \<and> CopyCtor Big big_value = big_value
   \<and> TTypeIndex Block64 \<noteq> TTypeIndex Big
   \<and> (\<exists>h s. PushAll wide_heap0 (Construct 0xFFFFFFFF) [(Big, big_value), (Block64, replicate 64 7)] =
               Inr (h, s)
         \<and> TypeMap s (TTypeIndex Big) = Some [4294967296]
         \<and> TypeMap s (TTypeIndex Block64) = Some [4294967296]
         \<and> Query h s Big \<noteq> Inr [big_value])"
proof -
  have a: "just_reset (Construct 4096)"
    by (simp add: just_reset_def Construct_def)
  have b: "pool_ok demo_heap (Construct 4096)"
    by (simp add: pool_ok_def Construct_def demo_heap_def)
  have t: "type_ok (Construct 4096) Stamp [10, 0, 0, 0]"
    by (simp add: type_ok_def Construct_def Stamp_def valid_align_def)
  have e: "align_up (unat (ChunkSize (Construct 4096))) (unat (AlignOf Stamp)) < 2 ^ 32"
    by (simp add: Construct_def Stamp_def align_up_def)
  have ty: "\<forall>(A, v)\<in>set [(Stamp, [10, 0, 0, 0 :: byte])]. type_ok (Construct 4096) A v"
    using t by simp
  have nw: "(\<forall>(A, v)\<in>set [(Stamp, [10, 0, 0, 0 :: byte])].
               align_up (unat (ChunkSize (Construct 4096))) (unat (AlignOf A)) < 2 ^ 32)
        \<or> ((\<forall>(A, v)\<in>set [(Stamp, [10, 0, 0, 0 :: byte])]. A = Stamp)
            \<and> unat (AlignOf Stamp) dvd unat (Head (Construct 4096)))"
    using e by simp
  note run = PushAll_run [OF reset_frame_inv [OF a b] ty nw]
  have "length [(Stamp, [10, 0, 0, 0 :: byte])] \<le> length (Supply demo_heap)"
    by (simp add: demo_heap_def)
  with run obtain h s where
    p: "PushAll demo_heap (Construct 4096) [(Stamp, [10, 0, 0, 0])] = Inr (h, s)"
    by blast
  with run have i: "frame_inv h s (constructed [(Stamp, [10, 0, 0, 0])])"
    by simp
  have "Query h s Stamp = Inr [[11, 1, 1, 1]]"
    using Query_of_frame [OF i ty, of Stamp] by (simp add: Stamp_def)
  with p have first: "\<exists>h s. PushAll demo_heap (Construct 4096) [(Stamp, [10, 0, 0, 0])] = Inr (h, s)
         \<and> Query h s Stamp = Inr [[11, 1, 1, 1]]"
    by blast
  have a': "just_reset (Construct 0xFFFFFFFF)"
    by (simp add: just_reset_def Construct_def)
  have b': "pool_ok wide_heap0 (Construct 0xFFFFFFFF)"
    by (simp add: pool_ok_def Construct_def wide_heap0_def)
  have t1: "type_ok (Construct 0xFFFFFFFF) Big big_value"
    by (simp add: type_ok_def Construct_def Big_def valid_align_def big_value_simps)
  have t2: "type_ok (Construct 0xFFFFFFFF) Block64 (replicate 64 7)"
    by (simp add: type_ok_def Construct_def Block64_def valid_align_def)
  have cp: "CopyCtor Big big_value = big_value"
    by (simp add: Big_def)
  from wide_frame obtain h1 h2 where
    p1: "Push wide_heap0 (Construct 0xFFFFFFFF) Big big_value =
           Inr (h1, wide_state\<lparr>TypeMap := [TTypeIndex Big \<mapsto> [4294967296]]\<rparr>)"
    and p2: "Push h1 (wide_state\<lparr>TypeMap := [TTypeIndex Big \<mapsto> [4294967296]]\<rparr>) Block64 (replicate 64 7) =
           Inr (h2, wide_state\<lparr>Head := 64, TypeMap := [TTypeIndex Big \<mapsto> [4294967296],
                                                        TTypeIndex Block64 \<mapsto> [4294967296]]\<rparr>)"
    and l3: "load h2 4294967296 4294967233 ! 0 = 7"
    by blast
  let ?s = "wide_state\<lparr>Head := 64, TypeMap := [TTypeIndex Big \<mapsto> [4294967296],
                                                 TTypeIndex Block64 \<mapsto> [4294967296]]\<rparr>"
  have run2: "PushAll wide_heap0 (Construct 0xFFFFFFFF) [(Big, big_value), (Block64, replicate 64 7)] =
               Inr (h2, ?s)"
    by (simp add: p1 p2)
  have k1: "TypeMap ?s (TTypeIndex Big) = Some [4294967296]"
    using wide_fingerprints_differ by simp
  have k2: "TypeMap ?s (TTypeIndex Block64) = Some [4294967296]"
    by simp
  have q1: "Query h2 ?s Big = Inr [load h2 4294967296 4294967233]"
    unfolding Query_eq k1 by (simp add: Big_def)
  have ne: "load h2 4294967296 4294967233 \<noteq> big_value"
    using l3 big_value_simps(2) by auto
  have second: "\<exists>h s. PushAll wide_heap0 (Construct 0xFFFFFFFF) [(Big, big_value), (Block64, replicate 64 7)] =
               Inr (h, s)
         \<and> TypeMap s (TTypeIndex Big) = Some [4294967296]
         \<and> TypeMap s (TTypeIndex Block64) = Some [4294967296]
         \<and> Query h s Big \<noteq> Inr [big_value]"
    using run2 k1 k2 q1 ne
    by (intro exI [of _ h2] exI [of _ ?s]) simp
  from a b t e first a' b' t1 t2 cp wide_fingerprints_differ second show ?thesis
    by (intro conjI)
qed

subsection \<open>Complements\<close>

lemma PushAll_append:
  "PushAll h s ps = Inr (h1, s1) \<Longrightarrow> PushAll h s (ps @ qs) = PushAll h1 s1 qs"
proof (induction ps arbitrary: h s)
  case Nil
  then show ?case by simp
next
  case (Cons q ps)
  obtain A v where q: "q = (A, v)" by (cases q)
  from Cons.prems obtain h2 s2 where
    p: "Push h s A v = Inr (h2, s2)" and r: "PushAll h2 s2 ps = Inr (h1, s1)"
    by (auto simp: q split: sum.splits)
  show ?case using Cons.IH [OF r] by (simp add: q p)
qed

text \<open>
  Type isolation at the level of the stored bytes: in a frame that keeps the contract
  of \<open>Push\<close>, with \<open>ChunkSize\<close> aligned up to the alignment of each pushed type below \<open>2^32\<close>,
  a push of another type leaves the values that \<open>Query\<close> reads for \<open>B\<close> as they were, since
  the new value is placed outside the used part of the arena.
\<close>

lemma push_keeps_other_values:
  assumes "just_reset s0" and "pool_ok h0 s0"
    and ty: "\<forall>(C, w)\<in>set (ps @ [(A, v)]). type_ok s0 C w"
    and bound: "\<forall>(C, w)\<in>set (ps @ [(A, v)]). align_up (unat (ChunkSize s0)) (unat (AlignOf C)) < 2 ^ 32"
    and run: "PushAll h0 s0 ps = Inr (h, s)"
    and push: "Push h s A v = Inr (h', s')"
    and ne: "TTypeIndex A \<noteq> TTypeIndex B"
    and sz: "\<forall>(C, w)\<in>set ps. TTypeIndex C = TTypeIndex B \<longrightarrow> SizeOf C = SizeOf B"
  shows "Query h' s' B = Query h s B"
proof -
  note inv = reset_frame_inv [OF assms(1,2)]
  have ty1: "\<forall>(C, w)\<in>set ps. type_ok s0 C w" using ty by auto
  have nw1: "(\<forall>(C, w)\<in>set ps. align_up (unat (ChunkSize s0)) (unat (AlignOf C)) < 2 ^ 32)
         \<or> ((\<forall>(C, w)\<in>set ps. C = B) \<and> unat (AlignOf B) dvd unat (Head s0))"
    using bound by auto
  have nw2: "(\<forall>(C, w)\<in>set (ps @ [(A, v)]). align_up (unat (ChunkSize s0)) (unat (AlignOf C)) < 2 ^ 32)
         \<or> ((\<forall>(C, w)\<in>set (ps @ [(A, v)]). C = B) \<and> unat (AlignOf B) dvd unat (Head s0))"
    using bound by blast
  have run2: "PushAll h0 s0 (ps @ [(A, v)]) = Inr (h', s')"
    using PushAll_append [OF run, of "[(A, v)]"] push by simp
  have i1: "frame_inv h s (constructed ps)"
    using PushAll_run [OF inv ty1 nw1] run by simp
  have i2: "frame_inv h' s' (constructed (ps @ [(A, v)]))"
    using PushAll_run [OF inv ty nw2] run2 by simp
  have sz2: "\<forall>(C, w)\<in>set (ps @ [(A, v)]). TTypeIndex C = TTypeIndex B \<longrightarrow> SizeOf C = SizeOf B"
    using sz ne by auto
  have "Query h s B =
          Inr (map (\<lambda>(C, w). CopyCtor C w) (filter (\<lambda>(C, w). TTypeIndex C = TTypeIndex B) ps))"
    using i1 ty1 sz by (rule Query_of_frame)
  moreover have "Query h' s' B =
          Inr (map (\<lambda>(C, w). CopyCtor C w)
                 (filter (\<lambda>(C, w). TTypeIndex C = TTypeIndex B) (ps @ [(A, v)])))"
    using i2 ty sz2 by (rule Query_of_frame)
  ultimately show ?thesis using ne by simp
qed

text \<open>
  C7. A push of a type \<open>A\<close> changes what \<open>Query\<close> yields for a type \<open>B\<close> with another
  fingerprint, in the frame where the aligned offset wraps. \<^verbatim>\<open>FFrameData(0xFFFFFFFF)\<close> with
  one value pushed as \<open>Big\<close> yields that value for \<open>Big\<close>. After the push of a \<open>Block64\<close>,
  whose fingerprint differs from that of \<open>Big\<close>, the view of \<open>Big\<close> has the same cursors
  over the same address, and the value read through it has changed: its first 64 bytes
  are those of the value pushed as \<open>Block64\<close>.
\<close>

theorem push_changes_other_values:
  "TTypeIndex Block64 \<noteq> TTypeIndex Big
   \<and> (\<exists>h s h' s'. Push wide_heap0 (Construct 0xFFFFFFFF) Big big_value = Inr (h, s)
         \<and> Query h s Big = Inr [big_value]
         \<and> Push h s Block64 (replicate 64 7) = Inr (h', s')
         \<and> fst (Data s' Big) = fst (Data s Big)
         \<and> Query h' s' Block64 = Inr [replicate 64 7]
         \<and> Query h' s' Big \<noteq> Query h s Big
         \<and> (\<exists>w. Query h' s' Big = Inr [w] \<and> take 64 w = replicate 64 7))"
proof -
  from wide_frame obtain h1 h2 where
    p1: "Push wide_heap0 (Construct 0xFFFFFFFF) Big big_value =
           Inr (h1, wide_state\<lparr>TypeMap := [TTypeIndex Big \<mapsto> [4294967296]]\<rparr>)"
    and p2: "Push h1 (wide_state\<lparr>TypeMap := [TTypeIndex Big \<mapsto> [4294967296]]\<rparr>) Block64 (replicate 64 7) =
           Inr (h2, wide_state\<lparr>Head := 64, TypeMap := [TTypeIndex Big \<mapsto> [4294967296],
                                                        TTypeIndex Block64 \<mapsto> [4294967296]]\<rparr>)"
    and l1: "load h1 4294967296 4294967233 = big_value"
    and l2: "load h2 4294967296 64 = replicate 64 7"
    and l3: "load h2 4294967296 4294967233 ! 0 = 7"
    by blast
  let ?s1 = "wide_state\<lparr>TypeMap := [TTypeIndex Big \<mapsto> [4294967296]]\<rparr>"
  let ?s2 = "wide_state\<lparr>Head := 64, TypeMap := [TTypeIndex Big \<mapsto> [4294967296],
                                                  TTypeIndex Block64 \<mapsto> [4294967296]]\<rparr>"
  have k1: "TypeMap ?s1 (TTypeIndex Big) = Some [4294967296]"
    by simp
  have k2: "TypeMap ?s2 (TTypeIndex Big) = Some [4294967296]"
    using wide_fingerprints_differ by simp
  have k3: "TypeMap ?s2 (TTypeIndex Block64) = Some [4294967296]"
    by simp
  have q1: "Query h1 ?s1 Big = Inr [big_value]"
    unfolding Query_eq k1 by (simp add: Big_def l1)
  have q2: "Query h2 ?s2 Big = Inr [load h2 4294967296 4294967233]"
    unfolding Query_eq k2 by (simp add: Big_def)
  have q3: "Query h2 ?s2 Block64 = Inr [replicate 64 7]"
    unfolding Query_eq k3 by (simp add: Block64_def l2)
  have d: "fst (Data ?s2 Big) = fst (Data ?s1 Big)"
    unfolding Data_def k1 k2 by simp
  have ne: "load h2 4294967296 4294967233 \<noteq> big_value"
    using l3 big_value_simps(2) by auto
  have tk: "take 64 (load h2 4294967296 4294967233) = replicate 64 7"
    using l2 by (simp add: load_def take_map)
  have "\<exists>h s h' s'. Push wide_heap0 (Construct 0xFFFFFFFF) Big big_value = Inr (h, s)
         \<and> Query h s Big = Inr [big_value]
         \<and> Push h s Block64 (replicate 64 7) = Inr (h', s')
         \<and> fst (Data s' Big) = fst (Data s Big)
         \<and> Query h' s' Block64 = Inr [replicate 64 7]
         \<and> Query h' s' Big \<noteq> Query h s Big
         \<and> (\<exists>w. Query h' s' Big = Inr [w] \<and> take 64 w = replicate 64 7)"
    using p1 q1 p2 d q3 q2 ne tk
    by (intro exI [of _ h1] exI [of _ ?s1] exI [of _ h2] exI [of _ ?s2]) simp
  with wide_fingerprints_differ show ?thesis
    by (intro conjI)
qed

lemma PushChunk_eq:
  "PushChunk h s =
     (snd (AlignedAlloc h (ucast (ChunkSize s)) (ucast ChunkAlignment)),
      s\<lparr>Chunks := Chunks s @ [fst (AlignedAlloc h (ucast (ChunkSize s)) (ucast ChunkAlignment))]\<rparr>)"
  by (simp add: PushChunk_def split: prod.splits)

text \<open>
  The defect behind C1 in general: whenever the container had moved past its first
  block (\<open>ChunkHead > 0\<close>), the first allocation on the moved-from container reads
  \<^verbatim>\<open>Chunks[ChunkHead]\<close> outside its new pool, for every size and alignment.
\<close>

lemma moved_from_Allocate_fails:
  assumes "0 < unat (ChunkHead s)" and "unat (ChunkHead s) + 1 < 2 ^ 32"
  shows "Chunks (snd (MoveConstruct s)) = []
         \<and> Allocate h (snd (MoveConstruct s)) InSize InAlign = Inl IndexOutOfBounds"
proof -
  define m where "m = snd (MoveConstruct s)"
  have f: "Chunks m = []" "ChunkHead m = ChunkHead s" "Head m = Head s" "ChunkSize m = ChunkSize s"
    by (simp_all add: m_def MoveConstruct_def)
  have inc: "unat (ChunkHead s + 1) = Suc (unat (ChunkHead s))"
    using assms(2) by (simp add: unat_incr)
  have "Allocate h m InSize InAlign = Inl IndexOutOfBounds"
    using assms(1)
    by (simp add: Allocate_def PushChunk_eq f inc Let_def)
  then show ?thesis by (simp add: f(1) m_def [symmetric])
qed

lemma disjoint_blocks_drop: "disjoint_blocks n (ys @ zs) \<Longrightarrow> disjoint_blocks n zs"
  by (induction ys) auto

lemma disjoint_blocks_cut: "disjoint_blocks n (xs @ ys @ zs) \<Longrightarrow> disjoint_blocks n (xs @ zs)"
  by (induction xs) (auto dest: disjoint_blocks_drop)

lemma disjoint_blocks_apart:
  "disjoint_blocks n (xs @ ys) \<Longrightarrow> 0 < n \<Longrightarrow> x \<in> set xs \<Longrightarrow> x \<notin> set ys"
proof (induction xs)
  case Nil
  then show ?case by simp
next
  case (Cons a xs)
  show ?case
  proof (cases "x = a")
    case True
    have "\<forall>c\<in>set ys. a + n \<le> c \<or> c + n \<le> a" using Cons.prems(1) by simp
    then have "a \<notin> set ys" using Cons.prems(2) by fastforce
    then show ?thesis by (simp add: True)
  next
    case False
    then show ?thesis using Cons by simp
  qed
qed

text \<open>
  The hypotheses of the round trip hold again after every \<open>Clear\<close> that the allocator
  can serve: a frame can follow a frame.
\<close>

lemma Clear_keeps_pool_ok:
  assumes ok: "pool_ok h s" and c: "Clear h s InSlack = Inr (h', s')"
    and k: "unat InSlack \<le> length (Chunks s) + length (Supply h)"
    and pos: "0 < unat (ChunkSize s)"
  shows "pool_ok h' s' \<and> just_reset s'"
proof -
  let ?n = "unat (ChunkSize s)"
  define k where "k = unat InSlack"
  have d: "disjoint_blocks ?n (Chunks s @ Supply h)"
    and live: "\<forall>c\<in>set (Chunks s). (c, ?n) \<in> set (Live h)"
    and lp: "\<forall>(b, m)\<in>set (Live h). 0 < b" and sp: "\<forall>x\<in>set (Supply h). 0 < x"
    and cnt: "length (Chunks s) + length (Supply h) < 2 ^ 32"
    using ok by (simp_all add: pool_ok_def)
  note jr = Clear_just_reset [OF c]
  show ?thesis
  proof (cases "k < length (Chunks s)")
    case True
    then have h': "h' = foldl free h (drop k (Chunks s))"
      and s': "s' = s\<lparr>Head := 0, ChunkHead := 0, TypeMap := Map.empty, Chunks := take k (Chunks s)\<rparr>"
      using c Clear_shrink [of InSlack s h] by (simp_all add: k_def)
    note f = foldl_free [of h "drop k (Chunks s)"]
    have "disjoint_blocks ?n (take k (Chunks s) @ drop k (Chunks s) @ Supply h)"
      using d by (simp flip: append_assoc)
    then have d': "disjoint_blocks ?n (take k (Chunks s) @ Supply h)"
      by (rule disjoint_blocks_cut)
    have "disjoint_blocks ?n (take k (Chunks s) @ drop k (Chunks s))"
      using d disjoint_blocks_cut [of ?n "Chunks s" "Supply h" "[]"] by simp
    then have ap: "x \<in> set (take k (Chunks s)) \<Longrightarrow> x \<notin> set (drop k (Chunks s))" for x
      using pos by (rule disjoint_blocks_apart)
    have live': "\<forall>c\<in>set (take k (Chunks s)). (c, ?n) \<in> set (Live h')"
      using live ap f by (auto simp: h' dest: in_set_takeD)
    have lp': "\<forall>(b, m)\<in>set (Live h'). 0 < b"
      using lp f by (auto simp: h')
    show ?thesis
      using d' live' lp' sp cnt f jr by (simp add: pool_ok_def s' h')
  next
    case False
    define m where "m = k - length (Chunks s)"
    define resized where "resized = Chunks s @ replicate m 0"
    have le: "length (Chunks s) \<le> k" using False by simp
    have "unat InSlack = length (Chunks s)
            \<or> (unat InSlack \<le> MaxSize h \<and> unat InSlack \<le> VecRoom h)"
      using Clear_Inr [OF c] le by (auto simp: k_def)
    from Clear_grow [OF le [unfolded k_def] this]
    obtain cs where ca: "Clear_alloc h resized (ChunkSize s) (length (Chunks s)) k = (h', cs)"
      and s': "s' = s\<lparr>Head := 0, ChunkHead := 0, TypeMap := Map.empty, Chunks := cs\<rparr>"
      using c by (auto simp: resized_def m_def k_def split: prod.splits)
    have len: "length resized = k" using False by (simp add: resized_def m_def)
    have mS: "m \<le> length (Supply h)" using k by (simp add: m_def k_def)
    note r = Clear_alloc_result [OF ca len le]
    have cs: "cs = Chunks s @ take m (Supply h)"
      using r mS by (simp add: resized_def m_def)
    have su: "Supply h' = drop m (Supply h)"
      and li: "Live h' = rev (map (\<lambda>a. (a, ?n)) (take m (Supply h))) @ Live h"
      using r by (simp_all add: m_def)
    have all: "cs @ Supply h' = Chunks s @ Supply h"
      by (simp add: cs su)
    have live': "\<forall>c\<in>set cs. (c, ?n) \<in> set (Live h')"
      using live by (auto simp: cs li)
    have lp': "\<forall>(b, m)\<in>set (Live h'). 0 < b"
      using lp sp by (auto simp: li dest: in_set_takeD)
    have sp': "\<forall>x\<in>set (Supply h'). 0 < x"
      using sp by (auto simp: su dest: in_set_dropD)
    have "length cs + length (Supply h') = length (Chunks s) + length (Supply h)"
      using arg_cong [OF all, of length] by simp
    then show ?thesis
      using d live' lp' sp' cnt jr by (simp add: pool_ok_def s' all)
  qed
qed

end
